theory Spec2Isabelle
  imports Complex_Main
begin

section \<open>Module constants of \<open>algorithm.py\<close>\<close>

definition NUMBER_OF_NODES :: nat where "NUMBER_OF_NODES = 10"
definition TIME_FRAMES :: nat where "TIME_FRAMES = 20"
definition CHROMOSOME_SIZE :: nat where "CHROMOSOME_SIZE = 3"
definition GENE_SIZE :: nat where "GENE_SIZE = 12"
definition MUTATION_CHANCE :: real where "MUTATION_CHANCE = 1 / 10"
definition POPULATION :: nat where "POPULATION = 100"
definition CHILDREN :: nat where "CHILDREN = 10"
definition TERMINATION_CONDITION :: nat where "TERMINATION_CONDITION = 1000"
definition POWER_RANGE :: "real \<times> real" where "POWER_RANGE = (0, 2)"

definition STEP :: real where
  "STEP = (snd POWER_RANGE - fst POWER_RANGE) / 2 ^ GENE_SIZE"

section \<open>Errors and the random source\<close>

text \<open>
  Python exceptions are values. A call that reads the random generator takes the
  generator's future output as a list of raw words and returns the unread rest; it is
  \<open>Starved\<close> when that finite prefix ends before the call has finished, which is how
  a loop that has not yet returned shows up.
\<close>

datatype error = IndexError | ValueError | LinAlgError

datatype 'a outcome = Returns 'a | Raises error | Starved

type_synonym rng = "nat list"

text \<open>
  \<open>random.random()\<close> returns \<open>k / 2^53\<close> for a 53-bit word \<open>k\<close>, so a float in
  \<open>[0, 1)\<close>; \<open>random.randint(a, b)\<close> (for \<open>a \<le> b\<close>, the only calls made) returns an
  integer of \<open>[a, b]\<close>. Both consume one word.
\<close>

definition random_random :: "rng \<Rightarrow> (real \<times> rng) option" where
  "random_random g = (case g of [] \<Rightarrow> None
     | k # rest \<Rightarrow> Some (real (k mod 2 ^ 53) / 2 ^ 53, rest))"

definition random_randint :: "int \<Rightarrow> int \<Rightarrow> rng \<Rightarrow> (int \<times> rng) option" where
  "random_randint a b g = (case g of [] \<Rightarrow> None
     | k # rest \<Rightarrow> Some (a + int (k mod nat (b - a + 1)), rest))"

section \<open>The codec inside \<open>_get_complete_individual\<close>\<close>

text \<open>
  Lines 60 to 66: for each of the \<open>CHROMOSOME_SIZE\<close> genes the inner loop adds
  \<open>chromosome[i * GENE_SIZE + j] * 2 ** (GENE_SIZE - j - 1)\<close> to \<open>binary\<close>, and
  the power is \<open>POWER_RANGE[0] + binary * STEP\<close>. The largest index read is
  \<open>CHROMOSOME_SIZE * GENE_SIZE - 1\<close>; a shorter list raises IndexError.
\<close>

definition gene_binary :: "int list \<Rightarrow> nat \<Rightarrow> int" where
  "gene_binary c i =
     foldl (\<lambda>binary j. binary + c ! (i * GENE_SIZE + j) * 2 ^ (GENE_SIZE - j - 1))
       0 [0..<GENE_SIZE]"

definition decode_powers :: "int list \<Rightarrow> error + real list" where
  "decode_powers c =
     (if length c < CHROMOSOME_SIZE * GENE_SIZE then Inl IndexError
      else Inr (map (\<lambda>i. fst POWER_RANGE + real_of_int (gene_binary c i) * STEP)
                  [0..<CHROMOSOME_SIZE]))"

text \<open>
  The spec's reading of one gene: its \<open>GENE_SIZE\<close> bits, most significant first, as an
  unsigned binary numeral.
\<close>

definition msb_first_value :: "int list \<Rightarrow> int" where
  "msb_first_value bits = foldl (\<lambda>acc b. 2 * acc + b) 0 bits"

definition gene_bits :: "int list \<Rightarrow> nat \<Rightarrow> int list" where
  "gene_bits c i = take GENE_SIZE (drop (i * GENE_SIZE) c)"

section \<open>Crossover and mutation\<close>

text \<open>
  \<open>_crossover\<close>: the point is \<open>random.randint(0, CHROMOSOME_SIZE * GENE_SIZE - 1)\<close> and
  the offspring is \<open>chromosome1[:point] + chromosome2[point:]\<close>.
\<close>

definition crossover_at :: "nat \<Rightarrow> int list \<Rightarrow> int list \<Rightarrow> int list" where
  "crossover_at crossover_point chromosome1 chromosome2 =
     take crossover_point chromosome1 @ drop crossover_point chromosome2"

definition crossover :: "int list \<Rightarrow> int list \<Rightarrow> rng \<Rightarrow> (int list \<times> rng) option" where
  "crossover chromosome1 chromosome2 g =
     (case random_randint 0 (int (CHROMOSOME_SIZE * GENE_SIZE) - 1) g of
        None \<Rightarrow> None
      | Some (crossover_point, g') \<Rightarrow>
          Some (crossover_at (nat crossover_point) chromosome1 chromosome2, g'))"

text \<open>
  \<open>_mutation\<close>: for each index below \<open>CHROMOSOME_SIZE * GENE_SIZE\<close> one draw; below
  \<open>MUTATION_CHANCE\<close> the bit is replaced by \<open>0 if chromosome[i] else 1\<close>.
\<close>

fun mutation_loop :: "nat list \<Rightarrow> int list \<Rightarrow> int list \<Rightarrow> rng \<Rightarrow> (int list \<times> rng) outcome" where
  "mutation_loop [] c mutated_chromosome g = Returns (mutated_chromosome, g)"
| "mutation_loop (i # rest) c mutated_chromosome g =
     (case random_random g of
        None \<Rightarrow> Starved
      | Some (r, g') \<Rightarrow>
          if length c \<le> i then Raises IndexError
          else mutation_loop rest c
                 (mutated_chromosome @ [if r < MUTATION_CHANCE
                                        then (if c ! i \<noteq> 0 then 0 else 1)
                                        else c ! i]) g')"

definition mutation :: "int list \<Rightarrow> rng \<Rightarrow> (int list \<times> rng) outcome" where
  "mutation c g = mutation_loop [0..<CHROMOSOME_SIZE * GENE_SIZE] c [] g"

section \<open>numpy values\<close>

text \<open>
  A \<open>numpy.float64\<close> scalar: a real number, plus or minus infinity, or NaN (signed zeros
  are not modelled). Arithmetic on scalars follows IEEE 754 binary64 and never raises: the
  exact result of an addition or a division is rounded to the nearest binary64 value, ties
  to the even significand, and a result that rounds beyond the largest finite value becomes
  an infinity. Under numpy's default error state a finite non-zero number divided by zero
  gives an infinity and emits \<open>RuntimeWarning: divide by zero\<close>; \<open>0/0\<close> and \<open>inf/inf\<close>
  give NaN and emit \<open>RuntimeWarning: invalid value\<close>; a division of finite numbers whose
  quotient overflows gives an infinity and emits \<open>RuntimeWarning: overflow\<close>; underflow is
  ignored. Every comparison with NaN is false.
\<close>

datatype npfloat = Fin real | PInf | NInf | NaN

datatype warning = DivideByZeroWarning | InvalidValueWarning | OverflowWarning

text \<open>
  The binade of a positive real \<open>a\<close> is the exponent \<open>e\<close> with \<open>2^e \<le> a < 2^(e+1)\<close>. The
  search doubles or halves \<open>a\<close> until it lies in \<open>[1, 2)\<close>; it is cut off after 1100 steps,
  beyond the exponents \<open>-1074 .. 1023\<close> of binary64, where the result no longer matters: a
  smaller number is rounded in the subnormal binade and a larger one overflows.
\<close>

fun binade_search :: "nat \<Rightarrow> real \<Rightarrow> int \<Rightarrow> int" where
  "binade_search 0 a e = e"
| "binade_search (Suc fuel) a e =
     (if a < 1 then binade_search fuel (2 * a) (e - 1)
      else if 2 \<le> a then binade_search fuel (a / 2) (e + 1)
      else e)"

text \<open>Rounding to the nearest integer, a tie going to the even one.\<close>

definition round_half_even :: "real \<Rightarrow> int" where
  "round_half_even q =
     (if q - of_int \<lfloor>q\<rfloor> < 1 / 2 then \<lfloor>q\<rfloor>
      else if 1 / 2 < q - of_int \<lfloor>q\<rfloor> then \<lfloor>q\<rfloor> + 1
      else if even \<lfloor>q\<rfloor> then \<lfloor>q\<rfloor> else \<lfloor>q\<rfloor> + 1)"

text \<open>
  The binary64 value of an exact result \<open>v\<close>: in the binade \<open>e\<close> of \<open>\<bar>v\<bar>\<close>, never below the
  least normal exponent \<open>-1022\<close>, the representable numbers are the multiples of
  \<open>2^(e - 52)\<close>, and \<open>\<bar>v\<bar>\<close> is rounded to the nearest of them; a magnitude that rounds to
  \<open>2^1024\<close> or more is an infinity.
\<close>

definition rounding_exponent :: "real \<Rightarrow> int" where
  "rounding_exponent v = max (- 1022) (binade_search 1100 \<bar>v\<bar> 0)"

definition rounded_magnitude :: "real \<Rightarrow> real" where
  "rounded_magnitude v =
     of_int (round_half_even (\<bar>v\<bar> / 2 powi (rounding_exponent v - 52)))
       * 2 powi (rounding_exponent v - 52)"

definition float64 :: "real \<Rightarrow> npfloat" where
  "float64 v =
     (if 2 ^ 1024 \<le> rounded_magnitude v then (if 0 < v then PInf else NInf)
      else Fin (if 0 \<le> v then rounded_magnitude v else - rounded_magnitude v))"

fun np_add :: "npfloat \<Rightarrow> npfloat \<Rightarrow> npfloat" where
  "np_add (Fin a) (Fin b) = float64 (a + b)"
| "np_add NaN _ = NaN"
| "np_add _ NaN = NaN"
| "np_add PInf NInf = NaN"
| "np_add NInf PInf = NaN"
| "np_add PInf _ = PInf"
| "np_add _ PInf = PInf"
| "np_add NInf _ = NInf"
| "np_add _ NInf = NInf"

text \<open>
  A product is rounded like a sum. The only product the program forms on scalars is
  \<open>-1 * fitness\<close>, the sort key: the factor \<open>-1\<close> changes the sign, which binary64
  carries out exactly.
\<close>

fun np_multiply :: "npfloat \<Rightarrow> npfloat \<Rightarrow> npfloat" where
  "np_multiply (Fin a) (Fin b) = (if a = - 1 then Fin (- b) else float64 (a * b))"
| "np_multiply NaN _ = NaN"
| "np_multiply _ NaN = NaN"
| "np_multiply (Fin a) PInf = (if a = 0 then NaN else if 0 < a then PInf else NInf)"
| "np_multiply (Fin a) NInf = (if a = 0 then NaN else if 0 < a then NInf else PInf)"
| "np_multiply PInf (Fin b) = (if b = 0 then NaN else if 0 < b then PInf else NInf)"
| "np_multiply NInf (Fin b) = (if b = 0 then NaN else if 0 < b then NInf else PInf)"
| "np_multiply PInf PInf = PInf"
| "np_multiply NInf NInf = PInf"
| "np_multiply PInf NInf = NInf"
| "np_multiply NInf PInf = NInf"

fun np_true_divide :: "npfloat \<Rightarrow> npfloat \<Rightarrow> npfloat" where
  "np_true_divide (Fin a) (Fin b) =
     (if b \<noteq> 0 then float64 (a / b)
      else if a = 0 then NaN else if 0 < a then PInf else NInf)"
| "np_true_divide NaN _ = NaN"
| "np_true_divide _ NaN = NaN"
| "np_true_divide (Fin a) PInf = Fin 0"
| "np_true_divide (Fin a) NInf = Fin 0"
| "np_true_divide PInf (Fin b) = (if 0 \<le> b then PInf else NInf)"
| "np_true_divide NInf (Fin b) = (if 0 \<le> b then NInf else PInf)"
| "np_true_divide PInf PInf = NaN"
| "np_true_divide PInf NInf = NaN"
| "np_true_divide NInf PInf = NaN"
| "np_true_divide NInf NInf = NaN"

fun true_divide_warnings :: "npfloat \<Rightarrow> npfloat \<Rightarrow> warning list" where
  "true_divide_warnings (Fin a) (Fin b) =
     (if b \<noteq> 0
      then (if float64 (a / b) = PInf \<or> float64 (a / b) = NInf then [OverflowWarning] else [])
      else if a = 0 then [InvalidValueWarning] else [DivideByZeroWarning])"
| "true_divide_warnings PInf PInf = [InvalidValueWarning]"
| "true_divide_warnings PInf NInf = [InvalidValueWarning]"
| "true_divide_warnings NInf PInf = [InvalidValueWarning]"
| "true_divide_warnings NInf NInf = [InvalidValueWarning]"
| "true_divide_warnings _ _ = []"

fun np_less :: "npfloat \<Rightarrow> npfloat \<Rightarrow> bool" where
  "np_less (Fin a) (Fin b) = (a < b)"
| "np_less NaN _ = False"
| "np_less _ NaN = False"
| "np_less _ NInf = False"
| "np_less NInf _ = True"
| "np_less PInf _ = False"
| "np_less _ PInf = True"

definition np_greater :: "npfloat \<Rightarrow> npfloat \<Rightarrow> bool" where
  "np_greater a b = np_less b a"

definition np_less_equal :: "npfloat \<Rightarrow> npfloat \<Rightarrow> bool" where
  "np_less_equal a b = (a \<noteq> NaN \<and> b \<noteq> NaN \<and> \<not> np_less b a)"

text \<open>Python's \<open>sum\<close> starts from the integer 0 and adds from the left.\<close>

definition py_sum :: "npfloat list \<Rightarrow> npfloat" where
  "py_sum values = foldl np_add (Fin 0) values"

text \<open>
  \<open>sorted(values, key=key)\<close> is stable and compares keys with \<open><\<close>. Insertion from the
  right, each element placed before the first element whose key is not smaller, gives the
  result of every stable sort whenever the keys are totally ordered, that is whenever no
  key is NaN.
\<close>

fun insort_by :: "('a \<Rightarrow> npfloat) \<Rightarrow> 'a \<Rightarrow> 'a list \<Rightarrow> 'a list" where
  "insort_by key v [] = [v]"
| "insort_by key v (w # ws) =
     (if np_less (key w) (key v) then w # insort_by key v ws else v # w # ws)"

definition py_sorted :: "('a \<Rightarrow> npfloat) \<Rightarrow> 'a list \<Rightarrow> 'a list" where
  "py_sorted key values = foldr (insort_by key) values []"

text \<open>
  A two-dimensional float array: its shape and its entries. What lies outside the shape
  is never read: every access checks the shape and raises IndexError as numpy does.
  The entries are reals and array arithmetic is exact: rounding is modelled for the scalar
  arithmetic on fitness values, not inside the arrays.
\<close>

record ndarray =
  nrows :: nat
  ncols :: nat
  cell :: "nat \<Rightarrow> nat \<Rightarrow> real"

text \<open>
  The two numpy routines whose numerics lie outside the repository are parameters:
  the element-wise power \<open>b ** p\<close> and the coefficient vector of
  \<open>np.linalg.lstsq(theta, stacked_y, rcond=None)[0]\<close>.
\<close>

record numpy =
  np_power :: "real \<Rightarrow> real \<Rightarrow> real"
  np_lstsq :: "real list list \<Rightarrow> real list \<Rightarrow> real list"

section \<open>\<open>_get_theta\<close>\<close>

text \<open>\<open>x[:TIME_FRAMES, j]\<close>: column \<open>j\<close> of the first \<open>TIME_FRAMES\<close> rows.\<close>

definition first_frames_column :: "ndarray \<Rightarrow> nat \<Rightarrow> error + real list" where
  "first_frames_column x j =
     (if ncols x \<le> j then Inl IndexError
      else Inr (map (\<lambda>t. cell x t j) [0..<min TIME_FRAMES (nrows x)]))"

text \<open>
  The inner loop over \<open>j\<close> (lines 46 to 50): a term is appended when \<open>j != node_index\<close>
  and \<open>adjacency_matrix[j, node_index]\<close> is truthy, that is non-zero.
\<close>

fun coupling_terms ::
  "numpy \<Rightarrow> ndarray \<Rightarrow> ndarray \<Rightarrow> real list \<Rightarrow> nat \<Rightarrow> real list \<Rightarrow> nat list
     \<Rightarrow> error + real list list" where
  "coupling_terms np x adjacency ps node_index x_i [] = Inr []"
| "coupling_terms np x adjacency ps node_index x_i (j # js) =
     (if j = node_index then coupling_terms np x adjacency ps node_index x_i js
      else if nrows adjacency \<le> j \<or> ncols adjacency \<le> node_index then Inl IndexError
      else if cell adjacency j node_index = 0
        then coupling_terms np x adjacency ps node_index x_i js
      else (case first_frames_column x j of
              Inl e \<Rightarrow> Inl e
            | Inr x_j \<Rightarrow>
                if length ps \<le> 2 then Inl IndexError
                else (case coupling_terms np x adjacency ps node_index x_i js of
                        Inl e \<Rightarrow> Inl e
                      | Inr terms \<Rightarrow>
                          Inr (map2 (\<lambda>vi vj. cell adjacency j node_index
                                           * np_power np vi (ps ! 1)
                                           * np_power np vj (ps ! 2)) x_i x_j
                               # terms))))"

text \<open>\<open>np.sum(terms, axis=0)\<close> for a non-empty list of vectors of one length.\<close>

definition sum_axis0 :: "real list list \<Rightarrow> real list" where
  "sum_axis0 terms = map (\<lambda>t. sum_list (map (\<lambda>term. term ! t) terms)) [0..<length (hd terms)]"

text \<open>
  \<open>np.column_stack\<close> of one-dimensional arrays: they must have one length, and the result
  is the list of rows.
\<close>

definition column_stack :: "real list list \<Rightarrow> error + real list list" where
  "column_stack column_list =
     (if column_list = [] \<or> (\<exists>col \<in> set column_list. length col \<noteq> length (hd column_list))
      then Inl ValueError
      else Inr (map (\<lambda>t. map (\<lambda>col. col ! t) column_list) [0..<length (hd column_list)]))"

definition theta_block ::
  "numpy \<Rightarrow> ndarray \<Rightarrow> ndarray \<Rightarrow> real list \<Rightarrow> nat \<Rightarrow> error + real list list" where
  "theta_block np x adjacency ps node_index =
     (case first_frames_column x node_index of
        Inl e \<Rightarrow> Inl e
      | Inr x_i \<Rightarrow>
          if ps = [] then Inl IndexError
          else (let column_list = [replicate TIME_FRAMES 1, map (\<lambda>v. np_power np v (ps ! 0)) x_i]
                in case coupling_terms np x adjacency ps node_index x_i [0..<NUMBER_OF_NODES] of
                     Inl e \<Rightarrow> Inl e
                   | Inr terms \<Rightarrow>
                       if terms \<noteq> [] then column_stack (column_list @ [sum_axis0 terms])
                       else column_stack column_list))"

text \<open>A loop that appends one result per element and stops at the first exception.\<close>

fun collect :: "('a \<Rightarrow> error + 'b) \<Rightarrow> 'a list \<Rightarrow> error + 'b list" where
  "collect f [] = Inr []"
| "collect f (v # vs) =
     (case f v of
        Inl e \<Rightarrow> Inl e
      | Inr w \<Rightarrow> (case collect f vs of Inl e \<Rightarrow> Inl e | Inr ws \<Rightarrow> Inr (w # ws)))"

text \<open>
  \<open>np.concatenate\<close> along axis 0 of two-dimensional blocks: ValueError when there is no
  block or when two blocks differ in their number of columns. Every block built by
  \<open>theta_block\<close> has \<open>TIME_FRAMES\<close> rows, so its width is the length of its first row.
\<close>

definition concatenate_rows :: "real list list list \<Rightarrow> error + real list list" where
  "concatenate_rows blocks =
     (if blocks = [] \<or> (\<exists>b \<in> set blocks. length (hd b) \<noteq> length (hd (hd blocks)))
      then Inl ValueError
      else Inr (concat blocks))"

definition get_theta :: "numpy \<Rightarrow> ndarray \<Rightarrow> ndarray \<Rightarrow> real list \<Rightarrow> error + real list list" where
  "get_theta np x adjacency ps =
     (case collect (theta_block np x adjacency ps) [0..<NUMBER_OF_NODES] of
        Inl e \<Rightarrow> Inl e
      | Inr theta_list \<Rightarrow> concatenate_rows theta_list)"

section \<open>\<open>_get_complete_individual\<close>\<close>

record individual =
  chromosome :: "int list"
  powers :: "real list"
  coefficients :: "real list"
  mse :: real
  fitness :: npfloat

text \<open>\<open>y[:, node_index]\<close>: a whole column of \<open>y\<close>.\<close>

definition whole_column :: "ndarray \<Rightarrow> nat \<Rightarrow> error + real list" where
  "whole_column y j =
     (if ncols y \<le> j then Inl IndexError else Inr (map (\<lambda>t. cell y t j) [0..<nrows y]))"

definition matmul_vec :: "real list list \<Rightarrow> real list \<Rightarrow> real list" where
  "matmul_vec theta coeffs = map (\<lambda>row. sum_list (map2 (*) row coeffs)) theta"

definition mean_squared_error :: "real list \<Rightarrow> real list \<Rightarrow> real" where
  "mean_squared_error stacked_y y_hat =
     sum_list (map2 (\<lambda>v w. (v - w) ^ 2) stacked_y y_hat) / real (length stacked_y)"

text \<open>
  The function returns the individual; the warnings that the division \<open>1 / mse\<close> emits on
  the way are returned beside it. The solver refuses a target whose length is not the
  number of rows of \<open>theta\<close> (LinAlgError), and the product \<open>theta @ coefficients\<close> a
  coefficient vector whose length is not the number of columns (ValueError).
\<close>

definition get_complete_individual ::
  "numpy \<Rightarrow> ndarray \<Rightarrow> ndarray \<Rightarrow> ndarray \<Rightarrow> int list \<Rightarrow> error + individual \<times> warning list" where
  "get_complete_individual np x y adjacency c =
     (case decode_powers c of
        Inl e \<Rightarrow> Inl e
      | Inr ps \<Rightarrow>
     (case get_theta np x adjacency ps of
        Inl e \<Rightarrow> Inl e
      | Inr theta \<Rightarrow>
     (case collect (whole_column y) [0..<NUMBER_OF_NODES] of
        Inl e \<Rightarrow> Inl e
      | Inr y_columns \<Rightarrow>
          let stacked_y = concat y_columns in
          if length stacked_y \<noteq> length theta then Inl LinAlgError
          else let coeffs = np_lstsq np theta stacked_y in
          if length coeffs \<noteq> length (hd theta) then Inl ValueError
          else let y_hat = matmul_vec theta coeffs;
                   m = mean_squared_error stacked_y y_hat
               in Inr (\<lparr>chromosome = c, powers = ps, coefficients = coeffs, mse = m,
                        fitness = np_true_divide (Fin 1) (Fin m)\<rparr>,
                       true_divide_warnings (Fin 1) (Fin m)))))"

section \<open>\<open>Population\<close>\<close>

record population =
  self_size :: nat
  self_x :: ndarray
  self_y :: ndarray
  self_adjacency_matrix :: ndarray
  self_individuals :: "individual list"

definition get_complete_individuals ::
  "numpy \<Rightarrow> population \<Rightarrow> int list list \<Rightarrow> error + individual list" where
  "get_complete_individuals np self chromosomes =
     collect (\<lambda>c. case get_complete_individual np (self_x self) (self_y self)
                          (self_adjacency_matrix self) c of
                    Inl e \<Rightarrow> Inl e
                  | Inr (completed, warnings) \<Rightarrow> Inr completed) chromosomes"

text \<open>\<open>[random.randint(0, 1) for _ in range(n)]\<close>\<close>

fun random_bits :: "nat \<Rightarrow> rng \<Rightarrow> (int list \<times> rng) option" where
  "random_bits 0 g = Some ([], g)"
| "random_bits (Suc n) g =
     (case random_randint 0 1 g of
        None \<Rightarrow> None
      | Some (b, g') \<Rightarrow>
          (case random_bits n g' of None \<Rightarrow> None | Some (bs, g'') \<Rightarrow> Some (b # bs, g'')))"

fun get_initial_individuals :: "nat \<Rightarrow> rng \<Rightarrow> (int list list \<times> rng) option" where
  "get_initial_individuals 0 g = Some ([], g)"
| "get_initial_individuals (Suc n) g =
     (case random_bits (CHROMOSOME_SIZE * GENE_SIZE) g of
        None \<Rightarrow> None
      | Some (c, g') \<Rightarrow>
          (case get_initial_individuals n g' of
             None \<Rightarrow> None
           | Some (cs, g'') \<Rightarrow> Some (c # cs, g'')))"

text \<open>\<open>Population.__init__\<close>\<close>

definition population_init ::
  "numpy \<Rightarrow> nat \<Rightarrow> ndarray \<Rightarrow> ndarray \<Rightarrow> ndarray \<Rightarrow> rng \<Rightarrow> (population \<times> rng) outcome" where
  "population_init np size_arg x y adjacency g =
     (case get_initial_individuals size_arg g of
        None \<Rightarrow> Starved
      | Some (chromosomes, g') \<Rightarrow>
          (let self = \<lparr>self_size = size_arg, self_x = x, self_y = y,
                       self_adjacency_matrix = adjacency, self_individuals = []\<rparr>
           in case get_complete_individuals np self chromosomes of
                Inl e \<Rightarrow> Raises e
              | Inr completed \<Rightarrow> Returns (self\<lparr>self_individuals := completed\<rparr>, g')))"

text \<open>
  \<open>_select_random_individual\<close>: the loop runs \<open>i\<close> over \<open>1 .. len - 1\<close>; before the
  iteration for \<open>i\<close> the selected index is \<open>i - 1\<close>, so the walk over the remaining
  individuals carries the selected index alone.
\<close>

fun select_scan :: "real \<Rightarrow> npfloat \<Rightarrow> individual list \<Rightarrow> nat \<Rightarrow> npfloat \<Rightarrow> nat" where
  "select_scan random_value total_fitness [] selected_index sum_fitness = selected_index"
| "select_scan random_value total_fitness (next_individual # rest) selected_index sum_fitness =
     (if np_greater (np_true_divide sum_fitness total_fitness) (Fin random_value)
      then selected_index
      else select_scan random_value total_fitness rest (Suc selected_index)
             (np_add sum_fitness (fitness next_individual)))"

definition select_index :: "real \<Rightarrow> individual list \<Rightarrow> npfloat \<Rightarrow> error + nat" where
  "select_index random_value sorted_individuals total_fitness =
     (case sorted_individuals of
        [] \<Rightarrow> Inl IndexError
      | first # rest \<Rightarrow> Inr (select_scan random_value total_fitness rest 0 (fitness first)))"

definition select_random_individual ::
  "individual list \<Rightarrow> npfloat \<Rightarrow> rng \<Rightarrow> (nat \<times> rng) outcome" where
  "select_random_individual sorted_individuals total_fitness g =
     (case random_random g of
        None \<Rightarrow> Starved
      | Some (random_value, g') \<Rightarrow>
          (case select_index random_value sorted_individuals total_fitness of
             Inl e \<Rightarrow> Raises e
           | Inr selected_index \<Rightarrow> Returns (selected_index, g')))"

text \<open>
  \<open>run_single_iteration\<close>. The sort key is \<open>-1 * individual['fitness']\<close>. Lines 148 and
  149 read the two parents from \<open>self.individuals\<close> at the selected indices.
\<close>

definition descending_key :: "individual \<Rightarrow> npfloat" where
  "descending_key i = np_multiply (Fin (- 1)) (fitness i)"

definition parent_chromosomes ::
  "individual list \<Rightarrow> nat \<Rightarrow> nat \<Rightarrow> error + int list \<times> int list" where
  "parent_chromosomes stored individual1_index individual2_index =
     (if length stored \<le> individual1_index \<or> length stored \<le> individual2_index
      then Inl IndexError
      else Inr (chromosome (stored ! individual1_index),
                chromosome (stored ! individual2_index)))"

lemma random_random_length:
  "random_random g = Some (r, g') \<Longrightarrow> length g' < length g"
  by (cases g) (auto simp: random_random_def)

lemma select_random_individual_length:
  "select_random_individual s t g = Returns (i, g') \<Longrightarrow> length g' < length g"
  by (auto simp: select_random_individual_def dest: random_random_length
      split: option.splits sum.splits)

lemma crossover_length:
  "crossover c1 c2 g = Some (offspring, g') \<Longrightarrow> length g' < length g"
  by (cases g) (auto simp: crossover_def random_randint_def)

lemma mutation_loop_length:
  "mutation_loop js c acc g = Returns (m, g') \<Longrightarrow> length g' \<le> length g"
proof (induction js arbitrary: acc g)
  case Nil
  then show ?case by simp
next
  case (Cons j js)
  then show ?case
    by (fastforce split: option.splits if_splits dest: random_random_length)
qed

lemma mutation_length:
  "mutation c g = Returns (m, g') \<Longrightarrow> length g' \<le> length g"
  unfolding mutation_def by (rule mutation_loop_length)

function children_loop ::
  "individual list \<Rightarrow> individual list \<Rightarrow> npfloat \<Rightarrow> int list list \<Rightarrow> rng
     \<Rightarrow> (int list list \<times> rng) outcome" where
  "children_loop stored sorted_individuals total_fitness children g =
     (if CHILDREN \<le> length children then Returns (children, g)
      else (case select_random_individual sorted_individuals total_fitness g of
              Starved \<Rightarrow> Starved
            | Raises e \<Rightarrow> Raises e
            | Returns (individual1_index, g1) \<Rightarrow>
          (case select_random_individual sorted_individuals total_fitness g1 of
              Starved \<Rightarrow> Starved
            | Raises e \<Rightarrow> Raises e
            | Returns (individual2_index, g2) \<Rightarrow>
          if individual1_index \<noteq> individual2_index
          then (case parent_chromosomes stored individual1_index individual2_index of
                  Inl e \<Rightarrow> Raises e
                | Inr (chromosome1, chromosome2) \<Rightarrow>
               (case crossover chromosome1 chromosome2 g2 of
                  None \<Rightarrow> Starved
                | Some (offspring_chromosome, g3) \<Rightarrow>
               (case mutation offspring_chromosome g3 of
                  Starved \<Rightarrow> Starved
                | Raises e \<Rightarrow> Raises e
                | Returns (mutated, g4) \<Rightarrow>
                    children_loop stored sorted_individuals total_fitness
                      (children @ [mutated]) g4)))
          else children_loop stored sorted_individuals total_fitness children g2)))"
  by pat_completeness auto
termination
proof (relation "measure (\<lambda>(stored, sorted_individuals, total_fitness, children, g). length g)")
  show "wf (measure (\<lambda>(stored, sorted_individuals, total_fitness, children, g). length g))"
    by simp
next
  fix stored sorted_individuals :: "individual list" and total_fitness children
    and g g1 g2 g3 g4 :: rng and x1 x2 i1 i2 pc c1 c2 x3 off x4 m
  assume "select_random_individual sorted_individuals total_fitness g = Returns x1"
    and "(i1, g1) = x1"
    and "select_random_individual sorted_individuals total_fitness g1 = Returns x2"
    and "(i2, g2) = x2"
    and "crossover c1 c2 g2 = Some x3" and "(off, g3) = x3"
    and "mutation off g3 = Returns x4" and "(m, g4) = x4"
  then have "length g1 < length g" "length g2 < length g1" "length g3 < length g2"
    "length g4 \<le> length g3"
    by (auto dest: select_random_individual_length crossover_length mutation_length)
  then show "((stored, sorted_individuals, total_fitness, children @ [m], g4),
              (stored, sorted_individuals, total_fitness, children, g))
         \<in> measure (\<lambda>(stored, sorted_individuals, total_fitness, children, g). length g)"
    by simp
next
  fix stored sorted_individuals :: "individual list" and total_fitness
    and children :: "int list list" and g g1 g2 :: rng and x1 x2 i1 i2
  assume "select_random_individual sorted_individuals total_fitness g = Returns x1"
    and "(i1, g1) = x1"
    and "select_random_individual sorted_individuals total_fitness g1 = Returns x2"
    and "(i2, g2) = x2"
  then have "length g1 < length g" "length g2 < length g1"
    by (auto dest: select_random_individual_length)
  then show "((stored, sorted_individuals, total_fitness, children, g2),
              (stored, sorted_individuals, total_fitness, children, g))
         \<in> measure (\<lambda>(stored, sorted_individuals, total_fitness, children, g). length g)"
    by simp
qed

declare children_loop.simps [simp del]

definition run_single_iteration ::
  "numpy \<Rightarrow> population \<Rightarrow> rng \<Rightarrow> (individual \<times> population \<times> rng) outcome" where
  "run_single_iteration np self g =
     (let sorted_individuals = py_sorted descending_key (self_individuals self);
          total_fitness = py_sum (map fitness (self_individuals self))
      in case children_loop (self_individuals self) sorted_individuals total_fitness [] g of
           Starved \<Rightarrow> Starved
         | Raises e \<Rightarrow> Raises e
         | Returns (children, g') \<Rightarrow>
             (case get_complete_individuals np self children of
                Inl e \<Rightarrow> Raises e
              | Inr complete_children \<Rightarrow>
                  (let new_individuals =
                         py_sorted descending_key (self_individuals self @ complete_children);
                       kept = take (self_size self) new_individuals
                   in if kept = [] then Raises IndexError
                      else Returns (hd kept, self\<lparr>self_individuals := kept\<rparr>, g'))))"

section \<open>The driver loop of \<open>run\<close>\<close>

record run_state =
  counter :: nat
  best_fitness :: npfloat
  best_index :: nat
  errors :: "real list"
  fittest_individual :: "individual option"

definition initial_run_state :: run_state where
  "initial_run_state =
     \<lparr>counter = 0, best_fitness = Fin 0, best_index = 0, errors = [], fittest_individual = None\<rparr>"

text \<open>
  The body of the \<open>while\<close> loop after the generation step has returned:
  \<open>math.log10\<close> raises ValueError unless its argument is positive.
\<close>

definition record_generation :: "individual \<Rightarrow> run_state \<Rightarrow> error + run_state" where
  "record_generation fittest v =
     (if mse fittest \<le> 0 then Inl ValueError
      else (let v1 = v\<lparr>counter := counter v + 1, fittest_individual := Some fittest,
                        errors := errors v @ [log 10 (mse fittest)]\<rparr>
            in Inr (if np_greater (fitness fittest) (best_fitness v1)
                    then v1\<lparr>best_fitness := fitness fittest, best_index := counter v1\<rparr>
                    else v1)))"

text \<open>
  The loop itself, over any generation step: \<open>None\<close> is the loop that never exits.
\<close>

partial_function (option) run_loop ::
  "('s \<Rightarrow> (individual \<times> 's) outcome) \<Rightarrow> 's \<Rightarrow> run_state \<Rightarrow> ('s \<times> run_state) outcome option" where
  "run_loop step s v =
     (if counter v - best_index v < TERMINATION_CONDITION
      then (case step s of
              Starved \<Rightarrow> Some Starved
            | Raises e \<Rightarrow> Some (Raises e)
            | Returns (fittest, s') \<Rightarrow>
                (case record_generation fittest v of
                   Inl e \<Rightarrow> Some (Raises e)
                 | Inr v' \<Rightarrow> run_loop step s' v'))
      else Some (Returns (s, v)))"

definition generation_step ::
  "numpy \<Rightarrow> population \<times> rng \<Rightarrow> (individual \<times> population \<times> rng) outcome" where
  "generation_step np s = run_single_iteration np (fst s) (snd s)"

text \<open>
  \<open>run\<close>, from the construction of the population on; the trajectory \<open>x\<close>, its
  derivative \<open>y\<close> and the adjacency matrix come from the network and dynamics classes.
\<close>

definition run ::
  "numpy \<Rightarrow> ndarray \<Rightarrow> ndarray \<Rightarrow> ndarray \<Rightarrow> rng
     \<Rightarrow> ((population \<times> rng) \<times> run_state) outcome option" where
  "run np x y adjacency g =
     (case population_init np POPULATION x y adjacency g of
        Starved \<Rightarrow> Some Starved
      | Raises e \<Rightarrow> Some (Raises e)
      | Returns s \<Rightarrow> run_loop (generation_step np) s initial_run_state)"

text \<open>
  An individual as \<open>_get_complete_individual\<close> shapes it, for the worked examples:
  chromosome \<open>c\<close>, error \<open>m\<close> and fitness \<open>1 / m\<close>.
\<close>

definition sample_individual :: "int list \<Rightarrow> real \<Rightarrow> individual" where
  "sample_individual c m =
     \<lparr>chromosome = c, powers = [], coefficients = [], mse = m,
      fitness = np_true_divide (Fin 1) (Fin m)\<rparr>"

text \<open>
  The spec's words for the coupling column: the incoming neighbours of node \<open>i\<close> are the
  nodes \<open>j \<noteq> i\<close> with \<open>A[j, i] \<noteq> 0\<close>, and the coupling term at time \<open>t\<close> is the sum
  over them of \<open>A[j, i] * X[t, i] ^ powers[1] * X[t, j] ^ powers[2]\<close>.
\<close>

definition in_neighbours :: "ndarray \<Rightarrow> nat \<Rightarrow> nat list" where
  "in_neighbours adjacency i =
     filter (\<lambda>j. j \<noteq> i \<and> cell adjacency j i \<noteq> 0) [0..<NUMBER_OF_NODES]"

definition coupling_sum :: "numpy \<Rightarrow> ndarray \<Rightarrow> ndarray \<Rightarrow> real list \<Rightarrow> nat \<Rightarrow> nat \<Rightarrow> real" where
  "coupling_sum np x adjacency ps i t =
     (\<Sum>j\<leftarrow>in_neighbours adjacency i.
        cell adjacency j i * np_power np (cell x t i) (ps ! 1) * np_power np (cell x t j) (ps ! 2))"

definition design_row :: "numpy \<Rightarrow> ndarray \<Rightarrow> ndarray \<Rightarrow> real list \<Rightarrow> nat \<Rightarrow> nat \<Rightarrow> real list" where
  "design_row np x adjacency ps i t =
     (if in_neighbours adjacency i = []
      then [1, np_power np (cell x t i) (ps ! 0)]
      else [1, np_power np (cell x t i) (ps ! 0), coupling_sum np x adjacency ps i t])"

text \<open>
  Data for the worked examples: arrays with one value everywhere, an array whose rows
  alternate between 1 and -1, and a numpy whose power is the real power and whose solver
  returns the zero vector, which is the minimum-norm least-squares solution whenever the
  target is orthogonal to every column of the design matrix.
\<close>

definition constant_array :: "nat \<Rightarrow> nat \<Rightarrow> real \<Rightarrow> ndarray" where
  "constant_array r c v = \<lparr>nrows = r, ncols = c, cell = (\<lambda>t j. v)\<rparr>"

definition alternating_array :: "nat \<Rightarrow> nat \<Rightarrow> ndarray" where
  "alternating_array r c = \<lparr>nrows = r, ncols = c, cell = (\<lambda>t j. if even t then 1 else - 1)\<rparr>"

text \<open>
  A target that alternates between \<open>2^-520\<close> and its negative: the mean of its squares is
  \<open>2^-1040\<close>, a subnormal number whose reciprocal exceeds the binary64 range.
\<close>

definition tiny_target :: real where
  "tiny_target = 1 / 2 ^ 520"

definition tiny_alternating_array :: "nat \<Rightarrow> nat \<Rightarrow> ndarray" where
  "tiny_alternating_array r c =
     \<lparr>nrows = r, ncols = c, cell = (\<lambda>t j. if even t then tiny_target else - tiny_target)\<rparr>"

definition sample_numpy :: numpy where
  "sample_numpy = \<lparr>np_power = (\<lambda>b p. b powr p),
                    np_lstsq = (\<lambda>theta stacked_y. replicate (length (hd theta)) 0)\<rparr>"

text \<open>
  A population of two on the sample data, both members of error 1, and the generator
  words that make one generation of it breed \<open>CHILDREN\<close> children: per child a draw of 0
  (index 0), a draw of 1/2 (index 1), crossover point 0 and 36 draws of 1/2 (no mutation).
\<close>

definition sample_complete :: "int list \<Rightarrow> individual" where
  "sample_complete c =
     \<lparr>chromosome = c, powers = (case decode_powers c of Inl e \<Rightarrow> [] | Inr ps \<Rightarrow> ps),
      coefficients = [0, 0, 0], mse = 1, fitness = Fin 1\<rparr>"

definition sample_population :: population where
  "sample_population =
     \<lparr>self_size = 2, self_x = constant_array 20 10 1, self_y = alternating_array 20 10,
      self_adjacency_matrix = constant_array 10 10 1,
      self_individuals = [sample_complete (replicate 36 0), sample_complete (replicate 36 1)]\<rparr>"

definition half_word :: nat where
  "half_word = 2 ^ 52"

definition child_words :: rng where
  "child_words = [0, half_word, 0] @ replicate 36 half_word"

definition generation_words :: "nat \<Rightarrow> rng" where
  "generation_words n = concat (replicate (n * CHILDREN) child_words)"

text \<open>
  A stored population that is not in descending order of fitness, as the constructor
  leaves it: fitness 1, 3 and 2 in that order; and a generator word whose draw is 5/8.
\<close>

definition unsorted_individuals :: "individual list" where
  "unsorted_individuals =
     [sample_individual (replicate 36 0) 1,
      sample_individual (replicate 36 1) (1 / 3),
      sample_individual (replicate 18 1 @ replicate 18 0) (1 / 2)]"

definition five_eighths_word :: nat where
  "five_eighths_word = 5 * 2 ^ 50"


text \<open>
  The spec's words for selection: the cumulative fitness of the individuals 0 to \<open>k\<close>, as
  the method accumulates it from the first individual on, and its fraction of the total,
  both in binary64; and the same fraction in exact arithmetic.
\<close>

definition cumulative_fitness :: "individual list \<Rightarrow> nat \<Rightarrow> npfloat" where
  "cumulative_fitness sorted_individuals k =
     foldl np_add (fitness (hd sorted_individuals))
       (map fitness (take k (tl sorted_individuals)))"

definition cumulative_fraction :: "individual list \<Rightarrow> npfloat \<Rightarrow> nat \<Rightarrow> npfloat" where
  "cumulative_fraction sorted_individuals total_fitness k =
     np_true_divide (cumulative_fitness sorted_individuals k) total_fitness"

definition exact_fraction :: "real list \<Rightarrow> nat \<Rightarrow> real" where
  "exact_fraction fs k = sum_list (take (Suc k) fs) / sum_list fs"

text \<open>
  Two individuals of fitness 2 and 1, and a generator word whose draw is the binary64
  value of 2/3; two individuals of fitness \<open>2^1023\<close>, whose sum overflows.
\<close>

definition two_to_one :: "individual list" where
  "two_to_one = [sample_individual [] (1 / 2), sample_individual [] 1]"

definition two_thirds_word :: nat where
  "two_thirds_word = 6004799503160661"

definition huge_fitness :: real where
  "huge_fitness = 2 ^ 1023"

definition huge_pair :: "individual list" where
  "huge_pair = [sample_individual [] (1 / huge_fitness), sample_individual [] (1 / huge_fitness)]"

text \<open>
  The chromosomes the program builds are lists of \<open>CHROMOSOME_SIZE * GENE_SIZE\<close> bits.
  \<open>chromosome_fitnesses\<close> are the fitness values their evaluation on given data can give,
  and a population is \<open>evaluated\<close> when each of its individuals is the evaluation of its
  own chromosome, a list of bits, on the population's data.
\<close>

definition bit_chromosomes :: "int list set" where
  "bit_chromosomes = {c. set c \<subseteq> {0, 1} \<and> length c = CHROMOSOME_SIZE * GENE_SIZE}"

definition chromosome_fitnesses ::
  "numpy \<Rightarrow> ndarray \<Rightarrow> ndarray \<Rightarrow> ndarray \<Rightarrow> npfloat set" where
  "chromosome_fitnesses np x y adjacency =
     {f. \<exists>c ind ws. c \<in> bit_chromosomes \<and>
           get_complete_individual np x y adjacency c = Inr (ind, ws) \<and> f = fitness ind}"

definition evaluated :: "numpy \<Rightarrow> population \<Rightarrow> bool" where
  "evaluated np self =
     (\<forall>i \<in> set (self_individuals self).
        chromosome i \<in> bit_chromosomes \<and>
        (\<exists>ws. get_complete_individual np (self_x self) (self_y self)
                (self_adjacency_matrix self) (chromosome i) = Inr (i, ws)))"
section \<open>binary64 rounding\<close>

lemma binade_search_binade:
  "2 powi k \<le> a \<Longrightarrow> a < 2 powi (k + 1) \<Longrightarrow> \<bar>k\<bar> \<le> int fuel \<Longrightarrow>
   binade_search fuel a e = e + k"
proof (induction fuel arbitrary: a e k)
  case 0
  then show ?case by simp
next
  case (Suc fuel)
  consider "k < 0" | "k = 0" | "0 < k" by linarith
  then show ?case
  proof cases
    case 1
    have "(2::real) powi (k + 1) \<le> 2 powi 0"
      by (rule power_int_increasing) (use 1 in auto)
    then have a1: "a < 1" using Suc.prems(2) by simp
    have p1: "(2::real) powi (k + 1) = 2 * 2 powi k"
      by (simp add: power_int_add)
    have p2: "(2::real) powi (k + 1 + 1) = 2 * 2 powi (k + 1)"
      by (simp add: power_int_add)
    have "binade_search fuel (2 * a) (e - 1) = e - 1 + (k + 1)"
      by (rule Suc.IH) (use Suc.prems 1 p1 p2 in auto)
    then show ?thesis using a1 by simp
  next
    case 2
    then show ?thesis using Suc.prems by simp
  next
    case 3
    have "(2::real) powi 1 \<le> 2 powi k"
      by (rule power_int_increasing) (use 3 in auto)
    then have a2: "2 \<le> a" using Suc.prems(1) by simp
    have p1: "(2::real) powi k = 2 * 2 powi (k - 1)"
      using power_int_add [of "2::real" "k - 1" 1] by simp
    have p2: "(2::real) powi (k + 1) = 2 * 2 powi (k - 1 + 1)"
      by (simp add: power_int_add)
    have "binade_search fuel (a / 2) (e + 1) = e + 1 + (k - 1)"
      by (rule Suc.IH) (use Suc.prems 3 p1 p2 in auto)
    then show ?thesis using a2 by simp
  qed
qed

text \<open>
  Rounding a number whose binade is known: the search finds the binade, and what is left
  is the rounding of the significand.
\<close>

lemma float64_binade:
  assumes "2 powi k \<le> \<bar>v\<bar>" and "\<bar>v\<bar> < 2 powi (k + 1)" and "- 1100 \<le> k" and "k \<le> 1100"
  shows "float64 v =
     (let ulp = 2 powi (max (- 1022) k - 52);
          m = of_int (round_half_even (\<bar>v\<bar> / ulp)) * ulp
      in if 2 ^ 1024 \<le> m then (if 0 < v then PInf else NInf)
         else Fin (if 0 \<le> v then m else - m))"
proof -
  have "binade_search 1100 \<bar>v\<bar> 0 = 0 + k"
    by (rule binade_search_binade) (use assms in auto)
  then have bs: "binade_search 1100 \<bar>v\<bar> 0 = k" by simp
  show ?thesis
    unfolding float64_def rounded_magnitude_def rounding_exponent_def bs Let_def ..
qed

lemma float64_not_NaN: "float64 v \<noteq> NaN"
  by (simp add: float64_def)

text \<open>Small integers and one half are binary64 values: rounding leaves them alone.\<close>

lemma float64_1: "float64 1 = Fin 1"
  using float64_binade [of 0 1] by (simp add: round_half_even_def Let_def)

lemma float64_2: "float64 2 = Fin 2"
  using float64_binade [of 1 2] by (simp add: round_half_even_def Let_def)

lemma float64_3: "float64 3 = Fin 3"
  using float64_binade [of 1 3] by (simp add: round_half_even_def Let_def)

lemma float64_4: "float64 4 = Fin 4"
  using float64_binade [of 2 4] by (simp add: round_half_even_def Let_def)

lemma float64_5: "float64 5 = Fin 5"
  using float64_binade [of 2 5] by (simp add: round_half_even_def Let_def)

lemma float64_6: "float64 6 = Fin 6"
  using float64_binade [of 2 6] by (simp add: round_half_even_def Let_def)

lemma float64_half: "float64 (1 / 2) = Fin (1 / 2)"
  using float64_binade [of "- 1" "1 / 2"] by (simp add: round_half_even_def Let_def)

text \<open>
  Two thirds and five sixths are not: they round to the nearest multiple of \<open>2^-53\<close>, two
  thirds downwards.
\<close>

lemma float64_two_thirds: "float64 (2 / 3) = Fin (6004799503160661 / 2 ^ 53)"
  using float64_binade [of "- 1" "2 / 3"] by (simp add: round_half_even_def Let_def)

lemma float64_five_sixths: "float64 (5 / 6) = Fin (7505999378950827 / 2 ^ 53)"
  using float64_binade [of "- 1" "5 / 6"] by (simp add: round_half_even_def Let_def)

text \<open>The largest power of two of binary64, and the overflow of its double.\<close>

lemma float64_huge_fitness: "float64 huge_fitness = Fin huge_fitness"
  using float64_binade [of 1023 "2 ^ 1023"]
  by (simp add: huge_fitness_def round_half_even_def Let_def)

lemma float64_huge_fitness_twice: "float64 (2 * huge_fitness) = PInf"
  using float64_binade [of 1024 "2 ^ 1024"]
  by (simp add: huge_fitness_def round_half_even_def Let_def)

text \<open>
  What rounding does in general: the rounded magnitude stays within the binade it is
  rounded in, so that a result of at least \<open>2^1024\<close> overflows and a result of at most
  \<open>2^1023\<close> does not.
\<close>

lemma binade_search_small:
  "0 \<le> a \<Longrightarrow> a < 2 powi (- int fuel) \<Longrightarrow> binade_search fuel a e = e - int fuel"
proof (induction fuel arbitrary: a e)
  case 0
  then show ?case by simp
next
  case (Suc fuel)
  have "(2::real) powi (- int (Suc fuel)) \<le> 2 powi 0"
    by (rule power_int_increasing) auto
  then have a1: "a < 1" using Suc.prems(2) by simp
  have "(2::real) powi (- int fuel) = 2 * 2 powi (- int (Suc fuel))"
    using power_int_add [of "2::real" "- int (Suc fuel)" 1] by simp
  then have "binade_search fuel (2 * a) (e - 1) = e - 1 - int fuel"
    by (intro Suc.IH) (use Suc.prems in auto)
  then show ?case using a1 by simp
qed

lemma binade_search_large:
  "2 powi (int fuel) \<le> a \<Longrightarrow> binade_search fuel a e = e + int fuel"
proof (induction fuel arbitrary: a e)
  case 0
  then show ?case by simp
next
  case (Suc fuel)
  have "(2::real) powi 1 \<le> 2 powi (int (Suc fuel))"
    by (rule power_int_increasing) auto
  then have a2: "2 \<le> a" using Suc.prems(1) by simp
  have "(2::real) powi (int (Suc fuel)) = 2 * 2 powi (int fuel)"
    using power_int_add [of "2::real" "int fuel" 1] by (simp add: add.commute)
  then have "binade_search fuel (a / 2) (e + 1) = e + 1 + int fuel"
    by (intro Suc.IH) (use Suc.prems in auto)
  then show ?case using a2 by simp
qed

lemma binade_exists:
  fixes a :: real
  assumes "0 < a"
  shows "\<exists>k. 2 powi k \<le> a \<and> a < 2 powi (k + 1)"
proof -
  define k where "k = \<lfloor>log 2 a\<rfloor>"
  have conv: "(2::real) powr real_of_int j = 2 powi j" for j
    by (rule powr_real_of_int') auto
  have "\<lfloor>log 2 a\<rfloor> = k" by (simp add: k_def)
  then have "2 powr real_of_int k \<le> a \<and> a < 2 powr real_of_int (k + 1)"
    using floor_log_eq_powr_iff [of a 2 k] assms by linarith
  then show ?thesis unfolding conv by blast
qed

lemma two_powi_less_imp:
  assumes "(2::real) powi m < 2 powi n"
  shows "m < n"
proof (rule ccontr)
  assume "\<not> m < n"
  then have "(2::real) powi n \<le> 2 powi m"
    by (intro power_int_increasing) auto
  with assms show False by simp
qed

lemma round_half_even_ge: "of_int n \<le> q \<Longrightarrow> n \<le> round_half_even q"
proof -
  assume "of_int n \<le> q"
  then have "n \<le> \<lfloor>q\<rfloor>" by (simp add: le_floor_iff)
  then show ?thesis by (simp add: round_half_even_def)
qed

lemma round_half_even_le: "q \<le> of_int n \<Longrightarrow> round_half_even q \<le> n"
proof -
  assume q: "q \<le> of_int n"
  then have f: "\<lfloor>q\<rfloor> \<le> n" by (simp add: floor_le_iff)
  show ?thesis
  proof (cases "\<lfloor>q\<rfloor> = n")
    case True
    then have "q = of_int n" using q by linarith
    then show ?thesis by (simp add: round_half_even_def)
  next
    case False
    then have "\<lfloor>q\<rfloor> + 1 \<le> n" using f by simp
    then show ?thesis by (simp add: round_half_even_def)
  qed
qed

lemma rounded_magnitude_ge:
  assumes "2 powi e \<le> \<bar>v\<bar>" and "rounding_exponent v = e"
  shows "2 powi e \<le> rounded_magnitude v"
proof -
  let ?u = "(2::real) powi (e - 52)"
  have u: "0 < ?u" by simp
  have split: "(2::real) powi e = 2 ^ 52 * ?u"
    using power_int_add [of "2::real" 52 "e - 52"] by simp
  have "of_int (2 ^ 52) \<le> \<bar>v\<bar> / ?u"
    using assms(1) u unfolding split by (simp add: pos_le_divide_eq)
  then have "(2 ^ 52 :: int) \<le> round_half_even (\<bar>v\<bar> / ?u)"
    by (rule round_half_even_ge)
  then have "(2 ^ 52 :: real) \<le> of_int (round_half_even (\<bar>v\<bar> / ?u))"
    by (metis of_int_le_iff of_int_numeral of_int_power)
  then have "2 ^ 52 * ?u \<le> of_int (round_half_even (\<bar>v\<bar> / ?u)) * ?u"
    using u by (simp add: mult_right_mono)
  then show ?thesis
    unfolding rounded_magnitude_def assms(2) split .
qed

lemma rounded_magnitude_le:
  assumes "\<bar>v\<bar> \<le> 2 powi (e + 1)" and "rounding_exponent v = e"
  shows "rounded_magnitude v \<le> 2 powi (e + 1)"
proof -
  let ?u = "(2::real) powi (e - 52)"
  have u: "0 < ?u" by simp
  have split: "(2::real) powi (e + 1) = 2 ^ 53 * ?u"
    using power_int_add [of "2::real" 53 "e - 52"] by (simp add: add.commute)
  have "\<bar>v\<bar> / ?u \<le> of_int (2 ^ 53)"
    using assms(1) u unfolding split by (simp add: pos_divide_le_eq)
  then have "round_half_even (\<bar>v\<bar> / ?u) \<le> (2 ^ 53 :: int)"
    by (rule round_half_even_le)
  then have "of_int (round_half_even (\<bar>v\<bar> / ?u)) \<le> (2 ^ 53 :: real)"
    by (metis of_int_le_iff of_int_numeral of_int_power)
  then have "of_int (round_half_even (\<bar>v\<bar> / ?u)) * ?u \<le> 2 ^ 53 * ?u"
    using u by (simp add: mult_right_mono)
  then show ?thesis
    unfolding rounded_magnitude_def assms(2) split .
qed

lemma rounded_magnitude_nonneg: "0 \<le> rounded_magnitude v"
proof -
  have "(0::int) \<le> round_half_even (\<bar>v\<bar> / 2 powi (rounding_exponent v - 52))"
    by (rule round_half_even_ge) simp
  then show ?thesis by (simp add: rounded_magnitude_def)
qed

text \<open>The exponent of rounding: the binade, kept within the normal range from below.\<close>

lemma rounding_exponent_cases:
  "(\<bar>v\<bar> < 2 powi (- 1022) \<and> rounding_exponent v = - 1022) \<or>
   (2 powi (rounding_exponent v) \<le> \<bar>v\<bar> \<and> \<bar>v\<bar> < 2 powi (rounding_exponent v + 1)) \<or>
   (2 powi 1100 \<le> \<bar>v\<bar> \<and> rounding_exponent v = 1100)"
proof -
  consider "\<bar>v\<bar> < 2 powi (- 1100)" | "2 powi 1100 \<le> \<bar>v\<bar>"
    | "2 powi (- 1100) \<le> \<bar>v\<bar>" "\<bar>v\<bar> < 2 powi 1100"
    by linarith
  then show ?thesis
  proof cases
    case 1
    have "binade_search 1100 \<bar>v\<bar> 0 = 0 - int 1100"
      by (rule binade_search_small) (use 1 in auto)
    then have e: "rounding_exponent v = - 1022" by (simp add: rounding_exponent_def)
    have "(2::real) powi (- 1100) \<le> 2 powi (- 1022)"
      by (rule power_int_increasing) auto
    then show ?thesis using 1 e by linarith
  next
    case 2
    have "binade_search 1100 \<bar>v\<bar> 0 = 0 + int 1100"
      by (rule binade_search_large) (use 2 in auto)
    then have "rounding_exponent v = 1100" by (simp add: rounding_exponent_def)
    then show ?thesis using 2 by simp
  next
    case 3
    have "0 < \<bar>v\<bar>" using 3(1) by (smt (verit) zero_less_power_int)
    from binade_exists [OF this] obtain k where k: "2 powi k \<le> \<bar>v\<bar>" "\<bar>v\<bar> < 2 powi (k + 1)"
      by blast
    have "(2::real) powi k < 2 powi 1100" using k(1) 3(2) by linarith
    then have k_hi: "k < 1100" by (rule two_powi_less_imp)
    have "(2::real) powi (- 1100) < 2 powi (k + 1)" using k(2) 3(1) by linarith
    then have k_lo: "- 1100 < k + 1" by (rule two_powi_less_imp)
    have "binade_search 1100 \<bar>v\<bar> 0 = 0 + k"
      by (rule binade_search_binade) (use k k_hi k_lo in auto)
    then have e: "rounding_exponent v = max (- 1022) k" by (simp add: rounding_exponent_def)
    show ?thesis
    proof (cases "- 1022 \<le> k")
      case True
      then show ?thesis using e k by (simp add: max_def)
    next
      case False
      then have "k + 1 \<le> - 1022" by simp
      then have "(2::real) powi (k + 1) \<le> 2 powi (- 1022)"
        by (rule power_int_increasing) simp
      then show ?thesis using e k False by (simp add: max_def)
    qed
  qed
qed

lemma float64_overflow:
  assumes "2 ^ 1024 \<le> v"
  shows "float64 v = PInf"
proof -
  have v: "\<bar>v\<bar> = v" "0 < v" using assms by (smt (verit) zero_less_power)+
  have p: "(2::real) powi 1024 = 2 ^ 1024" by simp
  have small: "(2::real) powi (- 1022) \<le> 2 powi 1024"
    by (rule power_int_increasing) auto
  from rounding_exponent_cases [of v]
  have "2 powi (rounding_exponent v) \<le> \<bar>v\<bar> \<and> 1024 \<le> rounding_exponent v"
  proof (elim disjE conjE)
    assume "\<bar>v\<bar> < 2 powi (- 1022)"
    then show ?thesis using assms v small p by linarith
  next
    assume a: "2 powi (rounding_exponent v) \<le> \<bar>v\<bar>" "\<bar>v\<bar> < 2 powi (rounding_exponent v + 1)"
    then have "(2::real) powi 1024 < 2 powi (rounding_exponent v + 1)"
      using assms v p by linarith
    then have "1024 < rounding_exponent v + 1" by (rule two_powi_less_imp)
    then show ?thesis using a by simp
  next
    assume "2 powi 1100 \<le> \<bar>v\<bar>" "rounding_exponent v = 1100"
    then show ?thesis by simp
  qed
  then have ge: "2 powi (rounding_exponent v) \<le> rounded_magnitude v"
    and e: "1024 \<le> rounding_exponent v"
    using rounded_magnitude_ge by blast+
  have "(2::real) powi 1024 \<le> 2 powi (rounding_exponent v)"
    by (rule power_int_increasing) (use e in auto)
  then have "2 ^ 1024 \<le> rounded_magnitude v" using ge p by linarith
  then show ?thesis using v by (simp add: float64_def)
qed

lemma float64_finite:
  assumes "0 \<le> v" and "v \<le> 2 ^ 1023"
  shows "\<exists>m. float64 v = Fin m \<and> 0 \<le> m \<and> m \<le> 2 ^ 1023"
proof -
  have v: "\<bar>v\<bar> = v" using assms by simp
  have p: "(2::real) powi 1023 = 2 ^ 1023" by simp
  have lt: "(2 ^ 1023 :: real) < 2 ^ 1024" by simp
  from rounding_exponent_cases [of v]
  have "\<bar>v\<bar> \<le> 2 powi (rounding_exponent v + 1) \<and> rounding_exponent v + 1 \<le> 1023
      \<or> v = 2 ^ 1023"
  proof (elim disjE conjE)
    assume "\<bar>v\<bar> < 2 powi (- 1022)" "rounding_exponent v = - 1022"
    moreover have "(2::real) powi (- 1022) \<le> 2 powi (- 1022 + 1)"
      by (rule power_int_increasing) auto
    ultimately show ?thesis by simp
  next
    assume a: "2 powi (rounding_exponent v) \<le> \<bar>v\<bar>" "\<bar>v\<bar> < 2 powi (rounding_exponent v + 1)"
    show ?thesis
    proof (cases "rounding_exponent v + 1 \<le> 1023")
      case True
      then show ?thesis using a by simp
    next
      case False
      then have "1023 \<le> rounding_exponent v" by simp
      then have "(2::real) powi 1023 \<le> 2 powi (rounding_exponent v)"
        by (rule power_int_increasing) simp
      then show ?thesis using a(1) assms(2) v p by linarith
    qed
  next
    assume "2 powi 1100 \<le> \<bar>v\<bar>"
    moreover have "(2::real) powi 1023 < 2 powi 1100"
      by (rule power_int_strict_increasing) auto
    ultimately show ?thesis using assms(2) v p by linarith
  qed
  then show ?thesis
  proof
    assume a: "\<bar>v\<bar> \<le> 2 powi (rounding_exponent v + 1) \<and> rounding_exponent v + 1 \<le> 1023"
    then have "rounded_magnitude v \<le> 2 powi (rounding_exponent v + 1)"
      using rounded_magnitude_le by blast
    moreover have "(2::real) powi (rounding_exponent v + 1) \<le> 2 powi 1023"
      by (rule power_int_increasing) (use a in auto)
    ultimately have "rounded_magnitude v \<le> 2 ^ 1023" using p by linarith
    then show ?thesis
      using assms(1) lt rounded_magnitude_nonneg [of v] by (simp add: float64_def)
  next
    assume "v = 2 ^ 1023"
    moreover have "float64 (2 ^ 1023) = Fin (2 ^ 1023)"
      using float64_binade [of 1023 "2 ^ 1023"] by (simp add: round_half_even_def Let_def)
    ultimately show ?thesis by simp
  qed
qed

text \<open>Rounding is monotone.\<close>

lemma round_half_even_floor: "\<lfloor>q\<rfloor> \<le> round_half_even q \<and> round_half_even q \<le> \<lfloor>q\<rfloor> + 1"
  by (simp add: round_half_even_def)

lemma round_half_even_mono:
  assumes "q1 \<le> q2"
  shows "round_half_even q1 \<le> round_half_even q2"
proof (cases "\<lfloor>q1\<rfloor> = \<lfloor>q2\<rfloor>")
  case True
  then show ?thesis using assms by (auto simp: round_half_even_def)
next
  case False
  then have "\<lfloor>q1\<rfloor> + 1 \<le> \<lfloor>q2\<rfloor>" using floor_mono [OF assms] by simp
  then show ?thesis
    using round_half_even_floor [of q1] round_half_even_floor [of q2] by linarith
qed

lemma rounded_magnitude_same_exponent:
  assumes "\<bar>x\<bar> \<le> \<bar>y\<bar>" and "rounding_exponent x = rounding_exponent y"
  shows "rounded_magnitude x \<le> rounded_magnitude y"
proof -
  let ?u = "(2::real) powi (rounding_exponent y - 52)"
  have u: "0 < ?u" by simp
  have "\<bar>x\<bar> / ?u \<le> \<bar>y\<bar> / ?u" using assms(1) u by (simp add: divide_right_mono)
  then have "round_half_even (\<bar>x\<bar> / ?u) \<le> round_half_even (\<bar>y\<bar> / ?u)"
    by (rule round_half_even_mono)
  then have "real_of_int (round_half_even (\<bar>x\<bar> / ?u)) \<le> real_of_int (round_half_even (\<bar>y\<bar> / ?u))"
    by simp
  then show ?thesis
    unfolding rounded_magnitude_def assms(2) using u by (simp add: mult_right_mono)
qed

lemma rounding_exponent_bounds:
  "- 1022 \<le> rounding_exponent v \<and> rounding_exponent v \<le> 1100"
proof -
  have "rounding_exponent v \<le> 1100"
    using rounding_exponent_cases [of v]
  proof (elim disjE conjE)
    assume a: "2 powi rounding_exponent v \<le> \<bar>v\<bar>" "\<bar>v\<bar> < 2 powi (rounding_exponent v + 1)"
    show ?thesis
    proof (rule ccontr)
      assume "\<not> rounding_exponent v \<le> 1100"
      then have "(2::real) powi 1100 \<le> 2 powi rounding_exponent v"
        by (intro power_int_increasing) auto
      then have big: "2 powi 1100 \<le> \<bar>v\<bar>" using a(1) by linarith
      have "binade_search 1100 \<bar>v\<bar> 0 = 0 + int 1100"
        by (rule binade_search_large) (use big in auto)
      then have "rounding_exponent v = 1100" by (simp add: rounding_exponent_def)
      with \<open>\<not> rounding_exponent v \<le> 1100\<close> show False by simp
    qed
  qed simp_all
  then show ?thesis by (simp add: rounding_exponent_def)
qed

lemma rounded_magnitude_mono:
  assumes "\<bar>x\<bar> \<le> \<bar>y\<bar>"
  shows "rounded_magnitude x \<le> rounded_magnitude y"
proof -
  let ?ex = "rounding_exponent x" and ?ey = "rounding_exponent y"
  have lo: "- 1022 \<le> ?ex" "- 1022 \<le> ?ey" using rounding_exponent_bounds by blast+
  consider "?ex = ?ey" | "?ex < ?ey" | "?ey < ?ex" by linarith
  then show ?thesis
  proof cases
    case 1
    with assms show ?thesis by (rule rounded_magnitude_same_exponent)
  next
    case 2
    have x_hi: "\<bar>x\<bar> \<le> 2 powi (?ex + 1)"
      using rounding_exponent_cases [of x]
    proof (elim disjE conjE)
      assume "\<bar>x\<bar> < 2 powi (- 1022)" "?ex = - 1022"
      moreover have "(2::real) powi (- 1022) \<le> 2 powi (- 1022 + 1)"
        by (rule power_int_increasing) auto
      ultimately show ?thesis by simp
    next
      assume "?ex = 1100"
      then show ?thesis using 2 rounding_exponent_bounds [of y] by simp
    qed simp
    have y_lo: "2 powi ?ey \<le> \<bar>y\<bar>"
      using rounding_exponent_cases [of y]
    proof (elim disjE conjE)
      assume "?ey = - 1022"
      then show ?thesis using 2 lo by simp
    qed simp_all
    have "rounded_magnitude x \<le> 2 powi (?ex + 1)"
      using x_hi by (rule rounded_magnitude_le) simp
    also have "\<dots> \<le> 2 powi ?ey"
      by (rule power_int_increasing) (use 2 in auto)
    also have "\<dots> \<le> rounded_magnitude y"
      using y_lo by (rule rounded_magnitude_ge) simp
    finally show ?thesis .
  next
    case 3
    have y_hi: "\<bar>y\<bar> < 2 powi (?ey + 1)"
      using rounding_exponent_cases [of y]
    proof (elim disjE conjE)
      assume "\<bar>y\<bar> < 2 powi (- 1022)" "?ey = - 1022"
      moreover have "(2::real) powi (- 1022) \<le> 2 powi (- 1022 + 1)"
        by (rule power_int_increasing) auto
      ultimately show ?thesis by simp
    next
      assume "?ey = 1100"
      then show ?thesis using 3 rounding_exponent_bounds [of x] by simp
    qed simp
    have x_lo: "2 powi ?ex \<le> \<bar>x\<bar>"
      using rounding_exponent_cases [of x]
    proof (elim disjE conjE)
      assume "?ex = - 1022"
      then show ?thesis using 3 lo by simp
    qed simp_all
    have "(2::real) powi (?ey + 1) \<le> 2 powi ?ex"
      by (rule power_int_increasing) (use 3 in auto)
    then have False using y_hi x_lo assms by linarith
    then show ?thesis ..
  qed
qed

text \<open>A finite rounded result is at most the rounding of any greater number.\<close>

lemma float64_le_rounded:
  assumes "float64 v = Fin w" and "v \<le> c" and "0 \<le> c"
  shows "w \<le> rounded_magnitude c"
proof (cases "0 \<le> v")
  case True
  then have "\<bar>v\<bar> \<le> \<bar>c\<bar>" using assms(2) by simp
  then have "rounded_magnitude v \<le> rounded_magnitude c" by (rule rounded_magnitude_mono)
  moreover have "w = rounded_magnitude v"
    using assms(1) True by (simp add: float64_def split: if_splits)
  ultimately show ?thesis by simp
next
  case False
  then have "w = - rounded_magnitude v"
    using assms(1) by (simp add: float64_def split: if_splits)
  then show ?thesis
    using rounded_magnitude_nonneg [of v] rounded_magnitude_nonneg [of c] by linarith
qed

lemma rounded_magnitude_zero: "rounded_magnitude 0 = 0"
  by (simp add: rounded_magnitude_def round_half_even_def)

text \<open>A number a little above a power of two is rounded down to it.\<close>

lemma rounded_magnitude_absorbs:
  assumes "- 1022 \<le> j" and "j \<le> 1023"
  shows "rounded_magnitude (2 powi j + 2 powi (j - 54)) = 2 powi j"
proof -
  let ?c = "(2::real) powi j + 2 powi (j - 54)"
  let ?u = "(2::real) powi (j - 52)"
  have pj: "(2::real) powi j = 2 ^ 52 * ?u"
    using power_int_add [of "2::real" 52 "j - 52"] by simp
  have pu: "?u = 4 * (2::real) powi (j - 54)"
    using power_int_add [of "2::real" 2 "j - 54"] by simp
  have p1: "(2::real) powi (j + 1) = 2 * 2 powi j"
    by (simp add: power_int_add)
  have c_pos: "\<bar>?c\<bar> = ?c" by (simp add: add_nonneg_nonneg)
  have small: "(2::real) powi (j - 54) < 2 powi j"
    by (rule power_int_strict_increasing) auto
  have "binade_search 1100 \<bar>?c\<bar> 0 = 0 + j"
    by (rule binade_search_binade) (use assms small p1 c_pos in auto)
  then have e: "rounding_exponent ?c = j"
    using assms by (simp add: rounding_exponent_def)
  have q: "?c / ?u = 2 ^ 52 + 1 / 4"
    unfolding pj by (simp add: pu add_divide_distrib)
  have r: "round_half_even (2 ^ 52 + 1 / 4) = 2 ^ 52"
    by (simp add: round_half_even_def)
  have rq: "round_half_even (\<bar>?c\<bar> / ?u) = 2 ^ 52"
    unfolding c_pos q by (rule r)
  have "rounded_magnitude ?c = of_int (2 ^ 52) * ?u"
    unfolding rounded_magnitude_def e rq ..
  also have "\<dots> = 2 powi j" using pj by simp
  finally show ?thesis .
qed

lemma rounded_magnitude_half_least:
  "rounded_magnitude (2 powi (- 1075)) = 0"
proof -
  let ?c = "(2::real) powi (- 1075)"
  have c_pos: "\<bar>?c\<bar> = ?c" by simp
  have "(2::real) powi (- 1075 + 1) = 2 * 2 powi (- 1075)"
    by (subst power_int_add) simp_all
  then have "binade_search 1100 \<bar>?c\<bar> 0 = 0 + (- 1075)"
    by (intro binade_search_binade) (simp_all add: c_pos)
  then have e: "rounding_exponent ?c = - 1022"
    by (simp add: rounding_exponent_def)
  have "(2::real) powi (- 1074) = 2 * ?c"
    using power_int_add [of "2::real" 1 "- 1075"] by simp
  then have "\<bar>?c\<bar> / 2 powi (- 1022 - 52) = 1 / 2"
    unfolding c_pos by simp
  then have "round_half_even (\<bar>?c\<bar> / 2 powi (- 1022 - 52)) = 0"
    by (simp add: round_half_even_def)
  then show ?thesis
    unfolding rounded_magnitude_def e by simp
qed

lemma foldl_np_add_infinite:
  "foldl np_add PInf (map Fin fs) = PInf" "foldl np_add NInf (map Fin fs) = NInf"
  by (induction fs) simp_all

text \<open>
  The running sum of numbers that are small beside a bound stays below the bound: once
  it has reached it, a further term is absorbed by the rounding.
\<close>

lemma foldl_np_add_bounded:
  assumes "\<forall>f \<in> set fs. f \<le> c" and "0 \<le> b" and "0 \<le> c" and "rounded_magnitude (b + c) \<le> b"
    and "s \<le> b" and "foldl np_add (Fin s) (map Fin fs) = Fin t"
  shows "t \<le> b"
  using assms(1,5,6)
proof (induction fs arbitrary: s)
  case Nil
  then show ?case by simp
next
  case (Cons f fs)
  have sum: "s + f \<le> b + c" using Cons.prems(1,2) by simp
  show ?case
  proof (cases "float64 (s + f)")
    case (Fin w)
    have "w \<le> rounded_magnitude (b + c)"
      using Fin sum by (rule float64_le_rounded) (use assms(2,3) in simp)
    then have "w \<le> b" using assms(4) by simp
    moreover have "foldl np_add (Fin w) (map Fin fs) = Fin t"
      using Cons.prems(3) Fin by simp
    ultimately show ?thesis using Cons.IH Cons.prems(1) by simp
  next
    case PInf
    then show ?thesis using Cons.prems(3) by (simp add: foldl_np_add_infinite)
  next
    case NInf
    then show ?thesis using Cons.prems(3) by (simp add: foldl_np_add_infinite)
  next
    case NaN
    then show ?thesis using float64_not_NaN by simp
  qed
qed

lemma float64_finite_bound:
  assumes "float64 v = Fin w"
  shows "w < 2 ^ 1024"
proof -
  have "rounded_magnitude v < 2 ^ 1024"
    using assms by (simp add: float64_def split: if_splits)
  moreover have "w \<le> rounded_magnitude v"
    using assms rounded_magnitude_nonneg [of v] by (auto simp: float64_def split: if_splits)
  ultimately show ?thesis by simp
qed

lemma foldl_np_add_last:
  assumes "foldl np_add a (map Fin fs) = Fin t" and "fs \<noteq> []"
  shows "\<exists>v. float64 v = Fin t"
proof -
  from assms(2) obtain gs f where fs: "fs = gs @ [f]" by (cases fs rule: rev_cases) auto
  have "np_add (foldl np_add a (map Fin gs)) (Fin f) = Fin t"
    using assms(1) by (simp add: fs)
  then show ?thesis
    by (cases "foldl np_add a (map Fin gs)") (auto split: if_splits)
qed

lemma float64_positive:
  assumes "2 powi (- 1074) \<le> v"
  shows "np_greater (float64 v) (Fin 0)"
proof -
  have v: "0 < v" "\<bar>v\<bar> = v" using assms by (smt (verit) zero_less_power_int)+
  have "0 < rounded_magnitude v"
    using rounding_exponent_cases [of v]
  proof (elim disjE conjE)
    assume e: "rounding_exponent v = - 1022"
    have "of_int 1 \<le> \<bar>v\<bar> / 2 powi (- 1074)"
      using assms v by (simp add: pos_le_divide_eq)
    then have "1 \<le> round_half_even (\<bar>v\<bar> / 2 powi (- 1074))"
      by (rule round_half_even_ge)
    then have "0 < real_of_int (round_half_even (\<bar>v\<bar> / 2 powi (- 1074)))" by simp
    then show ?thesis unfolding rounded_magnitude_def e by simp
  next
    assume "2 powi rounding_exponent v \<le> \<bar>v\<bar>"
    then have "2 powi rounding_exponent v \<le> rounded_magnitude v"
      by (rule rounded_magnitude_ge) simp
    moreover have "(0::real) < 2 powi rounding_exponent v" by simp
    ultimately show ?thesis by linarith
  next
    assume "2 powi 1100 \<le> \<bar>v\<bar>" "rounding_exponent v = 1100"
    then have "2 powi 1100 \<le> rounded_magnitude v"
      using rounded_magnitude_ge by metis
    moreover have "(0::real) < 2 powi 1100" by simp
    ultimately show ?thesis by linarith
  qed
  then show ?thesis using v by (simp add: float64_def np_greater_def)
qed

text \<open>
  The total of finitely many fitness values, none above \<open>f0\<close>, when it is finite and
  positive, is less than \<open>2^1074\<close> times \<open>f0\<close>: the fraction of \<open>f0\<close> does not underflow.
\<close>

lemma py_sum_fraction_positive:
  assumes "\<forall>f \<in> set fs. f \<le> f0" and "py_sum (map Fin fs) = Fin t" and "0 < t"
  shows "np_greater (float64 (f0 / t)) (Fin 0)"
proof -
  have run: "foldl np_add (Fin 0) (map Fin fs) = Fin t"
    using assms(2) by (simp add: py_sum_def)
  have pos: "2 powi (- 1076) < f0"
  proof (rule ccontr)
    assume "\<not> 2 powi (- 1076) < f0"
    then have small: "\<forall>f \<in> set fs. f \<le> 2 powi (- 1075)"
      using assms(1) power_int_increasing [of "- 1076" "- 1075" "2::real"] by fastforce
    have "t \<le> 0"
    proof (rule foldl_np_add_bounded [where b = 0 and c = "2 powi (- 1075)", OF small _ _ _ _ run])
      show "rounded_magnitude (0 + 2 powi (- 1075)) \<le> 0"
        unfolding add_0 rounded_magnitude_half_least by (rule order_refl)
    qed simp_all
    with assms(3) show False by simp
  qed
  then have f0: "0 < f0" by (smt (verit) zero_less_power_int)
  have ne: "fs \<noteq> []" using run assms(3) by auto
  have bound: "t \<le> 2 powi 1074 * f0"
  proof (cases "2 powi (- 50) \<le> f0")
    case True
    from foldl_np_add_last [OF run ne] have "t < 2 ^ 1024"
      using float64_finite_bound by blast
    moreover have "(2::real) ^ 1024 = 2 powi 1074 * 2 powi (- 50)"
      using power_int_add [of "2::real" 1074 "- 50"] by simp
    moreover have "2 powi 1074 * 2 powi (- 50) \<le> 2 powi 1074 * f0"
      using True by (intro mult_left_mono) simp_all
    ultimately show ?thesis by linarith
  next
    case False
    from binade_exists [OF f0] obtain k where k: "2 powi k \<le> f0" "f0 < 2 powi (k + 1)"
      by blast
    have "(2::real) powi k < 2 powi (- 50)" using k(1) False by linarith
    then have k_hi: "k < - 50" by (rule two_powi_less_imp)
    have "(2::real) powi (- 1076) < 2 powi (k + 1)" using k(2) pos by linarith
    then have k_lo: "- 1076 < k + 1" by (rule two_powi_less_imp)
    define j where "j = k + 55"
    have j: "- 1022 \<le> j" "j \<le> 1023" using k_hi k_lo by (simp_all add: j_def)
    have "k + 1 = j - 54" by (simp add: j_def)
    then have "(2::real) powi (k + 1) = 2 powi (j - 54)" by (rule arg_cong)
    then have terms: "\<forall>f \<in> set fs. f \<le> 2 powi (j - 54)"
      using assms(1) k(2) by fastforce
    have "t \<le> 2 powi j"
    proof (rule foldl_np_add_bounded [where b = "2 powi j" and c = "2 powi (j - 54)",
          OF terms _ _ _ _ run])
      show "rounded_magnitude (2 powi j + 2 powi (j - 54)) \<le> 2 powi j"
        unfolding rounded_magnitude_absorbs [OF j] by (rule order_refl)
    qed simp_all
    moreover have "(2::real) powi j = 2 powi 55 * 2 powi k"
      unfolding j_def using power_int_add [of "2::real" 55 k] by (simp add: add.commute)
    moreover have "2 powi 55 * 2 powi k \<le> 2 powi 1074 * f0"
    proof (rule mult_mono)
      show "(2::real) powi 55 \<le> 2 powi 1074" by (rule power_int_increasing) auto
    qed (use k(1) in simp_all)
    ultimately show ?thesis by linarith
  qed
  have "2 powi (- 1074) * t \<le> 2 powi (- 1074) * (2 powi 1074 * f0)"
    using bound by (intro mult_left_mono) simp_all
  also have "\<dots> = f0"
    using power_int_add [of "2::real" "- 1074" 1074] by simp
  finally have "2 powi (- 1074) \<le> f0 / t"
    using assms(3) by (simp add: pos_le_divide_eq)
  then show ?thesis by (rule float64_positive)
qed


section \<open>Codec properties\<close>

lemma foldl_add_sum_list:
  "foldl (\<lambda>acc j. acc + f j) (a::int) js = a + sum_list (map f js)"
  by (induction js arbitrary: a) simp_all

lemma gene_binary_sum:
  "gene_binary c i = (\<Sum>j\<leftarrow>[0..<GENE_SIZE]. c ! (i * GENE_SIZE + j) * 2 ^ (GENE_SIZE - j - 1))"
  unfolding gene_binary_def by (simp add: foldl_add_sum_list)

lemma msb_first_value_snoc:
  "msb_first_value (bs @ [b]) = 2 * msb_first_value bs + b"
  by (simp add: msb_first_value_def)

lemma msb_first_value_sum:
  "msb_first_value bs = (\<Sum>j\<leftarrow>[0..<length bs]. bs ! j * 2 ^ (length bs - j - 1))"
proof (induction bs rule: rev_induct)
  case Nil
  show ?case by (simp add: msb_first_value_def)
next
  case (snoc b bs)
  have "(\<Sum>j\<leftarrow>[0..<length bs]. (bs @ [b]) ! j * 2 ^ (length (bs @ [b]) - j - 1))
      = (\<Sum>j\<leftarrow>[0..<length bs]. 2 * (bs ! j * 2 ^ (length bs - j - 1)))"
  proof (rule arg_cong [where f = sum_list], rule map_cong [OF refl])
    fix j assume "j \<in> set [0..<length bs]"
    then have j: "j < length bs" by simp
    then have "length bs - j = Suc (length bs - j - 1)" by simp
    then have "(2::int) ^ (length bs - j) = 2 * 2 ^ (length bs - j - 1)"
      by (metis power_Suc)
    with j show "(bs @ [b]) ! j * 2 ^ (length (bs @ [b]) - j - 1)
        = 2 * (bs ! j * 2 ^ (length bs - j - 1))"
      by (simp add: nth_append)
  qed
  also have "\<dots> = 2 * msb_first_value bs"
    by (simp add: snoc.IH sum_list_const_mult)
  finally show ?case
    by (simp add: msb_first_value_snoc)
qed

lemma gene_binary_msb_first:
  assumes "(i + 1) * GENE_SIZE \<le> length c"
  shows "gene_binary c i = msb_first_value (gene_bits c i)"
proof -
  have len: "length (gene_bits c i) = GENE_SIZE"
    using assms by (simp add: gene_bits_def)
  have "msb_first_value (gene_bits c i)
      = (\<Sum>j\<leftarrow>[0..<GENE_SIZE]. gene_bits c i ! j * 2 ^ (GENE_SIZE - j - 1))"
    using msb_first_value_sum [of "gene_bits c i"] by (simp add: len)
  also have "\<dots> = (\<Sum>j\<leftarrow>[0..<GENE_SIZE]. c ! (i * GENE_SIZE + j) * 2 ^ (GENE_SIZE - j - 1))"
  proof (rule arg_cong [where f = sum_list], rule map_cong [OF refl])
    fix j assume "j \<in> set [0..<GENE_SIZE]"
    then have "j < GENE_SIZE" by simp
    then show "gene_bits c i ! j * 2 ^ (GENE_SIZE - j - 1)
        = c ! (i * GENE_SIZE + j) * 2 ^ (GENE_SIZE - j - 1)"
      using assms by (simp add: gene_bits_def)
  qed
  finally show ?thesis by (simp add: gene_binary_sum)
qed

lemma msb_first_value_bounds:
  "set bs \<subseteq> {0, 1} \<Longrightarrow> 0 \<le> msb_first_value bs \<and> msb_first_value bs < 2 ^ length bs"
proof (induction bs rule: rev_induct)
  case Nil
  show ?case by (simp add: msb_first_value_def)
next
  case (snoc b bs)
  then have "0 \<le> msb_first_value bs" "msb_first_value bs < 2 ^ length bs" "b = 0 \<or> b = 1"
    by auto
  then show ?case by (auto simp: msb_first_value_snoc)
qed

lemma msb_first_value_zeros: "msb_first_value (replicate n 0) = 0"
proof (induction n)
  case 0
  show ?case by (simp add: msb_first_value_def)
next
  case (Suc n)
  have "msb_first_value (replicate (Suc n) 0) = msb_first_value (replicate n 0 @ [0])"
    by (simp add: replicate_append_same)
  then show ?case by (simp add: msb_first_value_snoc Suc.IH)
qed

lemma msb_first_value_ones: "msb_first_value (replicate n 1) = 2 ^ n - 1"
proof (induction n)
  case 0
  show ?case by (simp add: msb_first_value_def)
next
  case (Suc n)
  have "msb_first_value (replicate (Suc n) 1) = msb_first_value (replicate n 1 @ [1])"
    by (simp add: replicate_append_same)
  then show ?case by (simp add: msb_first_value_snoc Suc.IH)
qed

lemma decode_powers_nth:
  assumes "CHROMOSOME_SIZE * GENE_SIZE \<le> length c" and "i < CHROMOSOME_SIZE"
  shows "\<exists>ps. decode_powers c = Inr ps \<and> length ps = CHROMOSOME_SIZE \<and>
           ps ! i = fst POWER_RANGE + real_of_int (msb_first_value (gene_bits c i)) * STEP"
proof -
  have "(i + 1) * GENE_SIZE \<le> CHROMOSOME_SIZE * GENE_SIZE"
    using assms(2) by (intro mult_le_mono1) simp
  then have "gene_binary c i = msb_first_value (gene_bits c i)"
    using assms(1) by (intro gene_binary_msb_first) simp
  then show ?thesis
    using assms by (simp add: decode_powers_def)
qed

lemma gene_bits_replicate:
  "i < CHROMOSOME_SIZE \<Longrightarrow>
   gene_bits (replicate (CHROMOSOME_SIZE * GENE_SIZE) b) i = replicate GENE_SIZE b"
  by (simp add: gene_bits_def CHROMOSOME_SIZE_def GENE_SIZE_def)

lemma decode_powers_replicate:
  "decode_powers (replicate (CHROMOSOME_SIZE * GENE_SIZE) b)
     = Inr (replicate CHROMOSOME_SIZE
              (fst POWER_RANGE + real_of_int (msb_first_value (replicate GENE_SIZE b)) * STEP))"
proof -
  let ?c = "replicate (CHROMOSOME_SIZE * GENE_SIZE) b"
  have "map (\<lambda>i. fst POWER_RANGE + real_of_int (gene_binary ?c i) * STEP) [0..<CHROMOSOME_SIZE]
      = map (\<lambda>i. fst POWER_RANGE + real_of_int (msb_first_value (replicate GENE_SIZE b)) * STEP)
          [0..<CHROMOSOME_SIZE]"
  proof (rule map_cong [OF refl])
    fix i assume "i \<in> set [0..<CHROMOSOME_SIZE]"
    then have i: "i < CHROMOSOME_SIZE" by simp
    then have "(i + 1) * GENE_SIZE \<le> CHROMOSOME_SIZE * GENE_SIZE"
      by (intro mult_le_mono1) simp
    then have "gene_binary ?c i = msb_first_value (gene_bits ?c i)"
      by (intro gene_binary_msb_first) simp
    with i show "fst POWER_RANGE + real_of_int (gene_binary ?c i) * STEP
        = fst POWER_RANGE + real_of_int (msb_first_value (replicate GENE_SIZE b)) * STEP"
      by (simp add: gene_bits_replicate)
  qed
  then show ?thesis
    by (simp add: decode_powers_def map_replicate_const)
qed

text \<open>
  C6. A chromosome of \<open>CHROMOSOME_SIZE * GENE_SIZE\<close> bits decodes without error to
  \<open>CHROMOSOME_SIZE\<close> powers; the power of gene \<open>i\<close> is
  \<open>min_power + b * step\<close>, where \<open>b\<close> is the unsigned value of the gene's bits read most
  significant bit first and \<open>step = (max_power - min_power) / 2^GENE_SIZE\<close>; \<open>b\<close> lies in
  \<open>[0, 2^GENE_SIZE - 1]\<close> and the power in \<open>[min_power, max_power]\<close>. The all-zero
  chromosome decodes every power to \<open>min_power\<close>, the all-ones chromosome to
  \<open>max_power - step\<close>. Being a function of the chromosome alone, the decoding is
  deterministic and pure.
\<close>

theorem decode_powers_correct:
  "(length c = CHROMOSOME_SIZE * GENE_SIZE \<and> set c \<subseteq> {0, 1} \<longrightarrow>
     (\<exists>ps. decode_powers c = Inr ps \<and> length ps = CHROMOSOME_SIZE \<and>
        (\<forall>i<CHROMOSOME_SIZE.
           ps ! i = fst POWER_RANGE + real_of_int (msb_first_value (gene_bits c i))
                          * ((snd POWER_RANGE - fst POWER_RANGE) / 2 ^ GENE_SIZE) \<and>
           0 \<le> msb_first_value (gene_bits c i) \<and>
           msb_first_value (gene_bits c i) \<le> 2 ^ GENE_SIZE - 1 \<and>
           fst POWER_RANGE \<le> ps ! i \<and> ps ! i \<le> snd POWER_RANGE))) \<and>
   decode_powers (replicate (CHROMOSOME_SIZE * GENE_SIZE) 0)
     = Inr (replicate CHROMOSOME_SIZE (fst POWER_RANGE)) \<and>
   decode_powers (replicate (CHROMOSOME_SIZE * GENE_SIZE) 1)
     = Inr (replicate CHROMOSOME_SIZE
              (snd POWER_RANGE - (snd POWER_RANGE - fst POWER_RANGE) / 2 ^ GENE_SIZE))"
proof (intro conjI impI)
  assume a: "length c = CHROMOSOME_SIZE * GENE_SIZE \<and> set c \<subseteq> {0, 1}"
  obtain ps where p: "decode_powers c = Inr ps" "length ps = CHROMOSOME_SIZE"
    using a by (simp add: decode_powers_def)
  have "\<forall>i<CHROMOSOME_SIZE.
           ps ! i = fst POWER_RANGE + real_of_int (msb_first_value (gene_bits c i))
                          * ((snd POWER_RANGE - fst POWER_RANGE) / 2 ^ GENE_SIZE) \<and>
           0 \<le> msb_first_value (gene_bits c i) \<and>
           msb_first_value (gene_bits c i) \<le> 2 ^ GENE_SIZE - 1 \<and>
           fst POWER_RANGE \<le> ps ! i \<and> ps ! i \<le> snd POWER_RANGE"
  proof (intro allI impI)
    fix i assume i: "i < CHROMOSOME_SIZE"
    let ?b = "msb_first_value (gene_bits c i)"
    have nth: "ps ! i = fst POWER_RANGE + real_of_int ?b * STEP"
      using decode_powers_nth [of c i] a i p by auto
    have "(i + 1) * GENE_SIZE \<le> CHROMOSOME_SIZE * GENE_SIZE"
      using i by (intro mult_le_mono1) simp
    then have len: "length (gene_bits c i) = GENE_SIZE"
      using a by (simp add: gene_bits_def)
    have "set (gene_bits c i) \<subseteq> {0, 1}"
      using a unfolding gene_bits_def
      by (meson set_take_subset set_drop_subset subset_trans)
    from msb_first_value_bounds [OF this] len
    have b: "0 \<le> ?b" "?b < 2 ^ GENE_SIZE" by simp_all
    then have b': "?b \<le> 2 ^ GENE_SIZE - 1" by simp
    have r0: "0 \<le> real_of_int ?b" using b(1) by simp
    have "real_of_int ?b \<le> real_of_int (2 ^ GENE_SIZE - 1)"
      using b' by (rule of_int_le_iff [THEN iffD2])
    then have r1: "real_of_int ?b \<le> 4095" by (simp add: GENE_SIZE_def)
    have step: "STEP = 1 / 2048" by (simp add: STEP_def POWER_RANGE_def GENE_SIZE_def)
    have "fst POWER_RANGE \<le> ps ! i" "ps ! i \<le> snd POWER_RANGE"
      using r0 r1 by (simp_all add: nth step POWER_RANGE_def)
    with nth b(1) b' show "ps ! i = fst POWER_RANGE + real_of_int ?b
                          * ((snd POWER_RANGE - fst POWER_RANGE) / 2 ^ GENE_SIZE) \<and>
           0 \<le> ?b \<and> ?b \<le> 2 ^ GENE_SIZE - 1 \<and>
           fst POWER_RANGE \<le> ps ! i \<and> ps ! i \<le> snd POWER_RANGE"
      by (simp add: STEP_def)
  qed
  with p show "\<exists>ps. decode_powers c = Inr ps \<and> length ps = CHROMOSOME_SIZE \<and>
        (\<forall>i<CHROMOSOME_SIZE.
           ps ! i = fst POWER_RANGE + real_of_int (msb_first_value (gene_bits c i))
                          * ((snd POWER_RANGE - fst POWER_RANGE) / 2 ^ GENE_SIZE) \<and>
           0 \<le> msb_first_value (gene_bits c i) \<and>
           msb_first_value (gene_bits c i) \<le> 2 ^ GENE_SIZE - 1 \<and>
           fst POWER_RANGE \<le> ps ! i \<and> ps ! i \<le> snd POWER_RANGE)"
    by blast
next
  show "decode_powers (replicate (CHROMOSOME_SIZE * GENE_SIZE) 0)
     = Inr (replicate CHROMOSOME_SIZE (fst POWER_RANGE))"
    by (simp add: decode_powers_replicate msb_first_value_zeros)
next
  show "decode_powers (replicate (CHROMOSOME_SIZE * GENE_SIZE) 1)
     = Inr (replicate CHROMOSOME_SIZE
              (snd POWER_RANGE - (snd POWER_RANGE - fst POWER_RANGE) / 2 ^ GENE_SIZE))"
    unfolding decode_powers_replicate msb_first_value_ones
    by (simp add: STEP_def POWER_RANGE_def GENE_SIZE_def)
qed

theorem decode_powers_correct_witness:
  "decode_powers (replicate 12 0 @ replicate 12 1 @ replicate 11 0 @ [1])
     = Inr [0, 4095 / 2048, 1 / 2048]"
proof -
  let ?c = "replicate 12 0 @ replicate 12 1 @ replicate 11 0 @ [1::int]"
  have h: "length ?c = CHROMOSOME_SIZE * GENE_SIZE \<and> set ?c \<subseteq> {0, 1}"
    by (simp add: CHROMOSOME_SIZE_def GENE_SIZE_def)
  from decode_powers_correct [of ?c, THEN conjunct1, rule_format, OF h]
  obtain ps where p: "decode_powers ?c = Inr ps" "length ps = CHROMOSOME_SIZE"
    and nth: "\<forall>i<CHROMOSOME_SIZE.
           ps ! i = fst POWER_RANGE + real_of_int (msb_first_value (gene_bits ?c i))
                          * ((snd POWER_RANGE - fst POWER_RANGE) / 2 ^ GENE_SIZE)"
    by blast
  have g0: "gene_bits ?c 0 = replicate 12 0" and g1: "gene_bits ?c 1 = replicate 12 1"
    and g2: "gene_bits ?c 2 = replicate 11 0 @ [1]"
    by (simp_all add: gene_bits_def GENE_SIZE_def)
  have v0: "msb_first_value (gene_bits ?c 0) = 0"
    unfolding g0 by (rule msb_first_value_zeros)
  have v1: "msb_first_value (gene_bits ?c 1) = 4095"
    unfolding g1 msb_first_value_ones by simp
  have v2: "msb_first_value (gene_bits ?c 2) = 1"
    unfolding g2 msb_first_value_snoc msb_first_value_zeros by simp
  have "ps ! 0 = 0"
    using nth [rule_format, of 0] unfolding v0
    by (simp add: CHROMOSOME_SIZE_def POWER_RANGE_def)
  moreover have "ps ! 1 = 4095 / 2048"
    using nth [rule_format, of 1] unfolding v1
    by (simp add: CHROMOSOME_SIZE_def POWER_RANGE_def GENE_SIZE_def)
  moreover have "ps ! 2 = 1 / 2048"
    using nth [rule_format, of 2] unfolding v2
    by (simp add: CHROMOSOME_SIZE_def POWER_RANGE_def GENE_SIZE_def)
  moreover have "length ps = 3" using p(2) by (simp add: CHROMOSOME_SIZE_def)
  ultimately have "ps = [0, 4095 / 2048, 1 / 2048]"
    by (intro nth_equalityI) (auto simp: less_Suc_eq numeral_3_eq_3 numeral_2_eq_2)
  with p(1) show ?thesis by simp
qed

section \<open>Crossover properties\<close>

lemma crossover_Some:
  assumes "crossover chromosome1 chromosome2 g = Some (offspring, g')"
  shows "\<exists>k. g = k # g' \<and>
           offspring = crossover_at (k mod (CHROMOSOME_SIZE * GENE_SIZE)) chromosome1 chromosome2"
  using assms
  by (cases g) (simp_all add: crossover_def random_randint_def CHROMOSOME_SIZE_def GENE_SIZE_def)

lemma crossover_Cons:
  "crossover chromosome1 chromosome2 (k # g)
     = Some (crossover_at (k mod (CHROMOSOME_SIZE * GENE_SIZE)) chromosome1 chromosome2, g)"
  by (simp add: crossover_def random_randint_def CHROMOSOME_SIZE_def GENE_SIZE_def)

lemma length_crossover_at:
  "length chromosome1 = length chromosome2 \<Longrightarrow>
   length (crossover_at p chromosome1 chromosome2) = length chromosome1"
  by (simp add: crossover_at_def)

lemma crossover_at_nth:
  assumes "length chromosome1 = length chromosome2" and "i < length chromosome1"
  shows "crossover_at p chromosome1 chromosome2 ! i
           = (if i < p then chromosome1 ! i else chromosome2 ! i)"
  using assms by (auto simp: crossover_at_def nth_append min_def)

text \<open>
  C9. For two parents of the chromosome length \<open>L = CHROMOSOME_SIZE * GENE_SIZE\<close>,
  crossover takes its point from \<open>{0, ..., L-1}\<close>, every point of that range being
  drawn for some generator word, and returns an offspring of length \<open>L\<close> whose bits
  before the point are those of parent 1 and whose bits from the point on are those of
  parent 2.
\<close>

theorem crossover_single_point:
  assumes "length chromosome1 = CHROMOSOME_SIZE * GENE_SIZE"
    and "length chromosome2 = CHROMOSOME_SIZE * GENE_SIZE"
  shows "(\<forall>g offspring g'. crossover chromosome1 chromosome2 g = Some (offspring, g') \<longrightarrow>
            (\<exists>p \<in> {0..<length chromosome1}.
               offspring = crossover_at p chromosome1 chromosome2 \<and>
               length offspring = length chromosome1 \<and>
               (\<forall>i<p. offspring ! i = chromosome1 ! i) \<and>
               (\<forall>i. p \<le> i \<and> i < length chromosome1 \<longrightarrow> offspring ! i = chromosome2 ! i))) \<and>
         (\<forall>p \<in> {0..<length chromosome1}. \<exists>g g'.
            crossover chromosome1 chromosome2 g
              = Some (crossover_at p chromosome1 chromosome2, g'))"
proof (intro conjI allI impI ballI)
  fix g offspring g'
  assume "crossover chromosome1 chromosome2 g = Some (offspring, g')"
  then obtain k where
    off: "offspring = crossover_at (k mod (CHROMOSOME_SIZE * GENE_SIZE)) chromosome1 chromosome2"
    using crossover_Some by blast
  let ?p = "k mod (CHROMOSOME_SIZE * GENE_SIZE)"
  have eq: "length chromosome1 = length chromosome2" using assms by simp
  have "?p < CHROMOSOME_SIZE * GENE_SIZE"
    by (simp add: CHROMOSOME_SIZE_def GENE_SIZE_def)
  then have p: "?p \<in> {0..<length chromosome1}" using assms by simp
  have "\<forall>i<?p. offspring ! i = chromosome1 ! i"
    using p by (simp add: off crossover_at_nth [OF eq])
  moreover have "\<forall>i. ?p \<le> i \<and> i < length chromosome1 \<longrightarrow> offspring ! i = chromosome2 ! i"
    by (simp add: off crossover_at_nth [OF eq])
  ultimately show "\<exists>p \<in> {0..<length chromosome1}.
               offspring = crossover_at p chromosome1 chromosome2 \<and>
               length offspring = length chromosome1 \<and>
               (\<forall>i<p. offspring ! i = chromosome1 ! i) \<and>
               (\<forall>i. p \<le> i \<and> i < length chromosome1 \<longrightarrow> offspring ! i = chromosome2 ! i)"
    using p off length_crossover_at [OF eq] by blast
next
  fix p assume "p \<in> {0..<length chromosome1}"
  then have "p mod (CHROMOSOME_SIZE * GENE_SIZE) = p" using assms by simp
  then have "crossover chromosome1 chromosome2 [p]
      = Some (crossover_at p chromosome1 chromosome2, [])"
    by (simp add: crossover_Cons)
  then show "\<exists>g g'. crossover chromosome1 chromosome2 g
      = Some (crossover_at p chromosome1 chromosome2, g')"
    by blast
qed

theorem crossover_single_point_witness:
  "length (replicate 36 (0::int)) = CHROMOSOME_SIZE * GENE_SIZE \<and>
   length (replicate 36 (1::int)) = CHROMOSOME_SIZE * GENE_SIZE \<and>
   crossover (replicate 36 0) (replicate 36 1) [41] = Some (replicate 5 0 @ replicate 31 1, []) \<and>
   (\<exists>p \<in> {0..<length (replicate 36 (0::int))}.
      replicate 5 0 @ replicate 31 1 = crossover_at p (replicate 36 0) (replicate 36 1) \<and>
      length (replicate 5 (0::int) @ replicate 31 1) = length (replicate 36 (0::int)) \<and>
      (\<forall>i<p. (replicate 5 0 @ replicate 31 1) ! i = replicate 36 (0::int) ! i) \<and>
      (\<forall>i. p \<le> i \<and> i < length (replicate 36 (0::int)) \<longrightarrow>
         (replicate 5 0 @ replicate 31 1) ! i = replicate 36 (1::int) ! i))"
proof -
  have l1: "length (replicate 36 (0::int)) = CHROMOSOME_SIZE * GENE_SIZE"
    and l2: "length (replicate 36 (1::int)) = CHROMOSOME_SIZE * GENE_SIZE"
    by (simp_all add: CHROMOSOME_SIZE_def GENE_SIZE_def)
  have run: "crossover (replicate 36 0) (replicate 36 1) [41]
      = Some (replicate 5 0 @ replicate 31 1, [])"
    by (simp add: crossover_Cons crossover_at_def CHROMOSOME_SIZE_def GENE_SIZE_def)
  from crossover_single_point [OF l1 l2, THEN conjunct1, rule_format, OF run] l1 l2 run
  show ?thesis by blast
qed

text \<open>
  C10. The crossover point never reaches the chromosome length \<open>L\<close>, so for two parents
  of length \<open>L = CHROMOSOME_SIZE * GENE_SIZE\<close> the last bit of the offspring is the last
  bit of parent 2. A point of 0 returns parent 2 itself. When the parents differ in their
  last bit the offspring is never parent 1: it differs from parent 1 at index \<open>L - 1\<close>,
  where it carries the bit of parent 2.
\<close>

theorem crossover_last_bit_from_parent2:
  assumes "length chromosome1 = CHROMOSOME_SIZE * GENE_SIZE"
    and "length chromosome2 = CHROMOSOME_SIZE * GENE_SIZE"
  shows "(\<forall>k g. k mod (CHROMOSOME_SIZE * GENE_SIZE) = 0 \<longrightarrow>
            crossover chromosome1 chromosome2 (k # g) = Some (chromosome2, g)) \<and>
         (\<forall>g offspring g'. crossover chromosome1 chromosome2 g = Some (offspring, g') \<longrightarrow>
            offspring ! (length chromosome1 - 1) = chromosome2 ! (length chromosome1 - 1) \<and>
            (chromosome1 ! (length chromosome1 - 1) \<noteq> chromosome2 ! (length chromosome1 - 1) \<longrightarrow>
               offspring \<noteq> chromosome1 \<and>
               offspring ! (length chromosome1 - 1) \<noteq> chromosome1 ! (length chromosome1 - 1)))"
proof (intro conjI allI impI)
  fix k :: nat and g :: rng
  assume "k mod (CHROMOSOME_SIZE * GENE_SIZE) = 0"
  then show "crossover chromosome1 chromosome2 (k # g) = Some (chromosome2, g)"
    by (simp add: crossover_Cons crossover_at_def)
next
  fix g offspring g'
  assume run: "crossover chromosome1 chromosome2 g = Some (offspring, g')"
  then obtain k where
    off: "offspring = crossover_at (k mod (CHROMOSOME_SIZE * GENE_SIZE)) chromosome1 chromosome2"
    using crossover_Some by blast
  have eq: "length chromosome1 = length chromosome2" using assms by simp
  have pos: "0 < length chromosome1"
    using assms by (simp add: CHROMOSOME_SIZE_def GENE_SIZE_def)
  have "k mod (CHROMOSOME_SIZE * GENE_SIZE) < CHROMOSOME_SIZE * GENE_SIZE"
    by (simp add: CHROMOSOME_SIZE_def GENE_SIZE_def)
  then have "\<not> length chromosome1 - 1 < k mod (CHROMOSOME_SIZE * GENE_SIZE)"
    using assms by simp
  then show last: "offspring ! (length chromosome1 - 1) = chromosome2 ! (length chromosome1 - 1)"
    using pos by (simp add: off crossover_at_nth [OF eq])
  assume "chromosome1 ! (length chromosome1 - 1) \<noteq> chromosome2 ! (length chromosome1 - 1)"
  with last show "offspring \<noteq> chromosome1" by auto
next
  fix g offspring g'
  assume run: "crossover chromosome1 chromosome2 g = Some (offspring, g')"
  then obtain k where
    off: "offspring = crossover_at (k mod (CHROMOSOME_SIZE * GENE_SIZE)) chromosome1 chromosome2"
    using crossover_Some by blast
  have eq: "length chromosome1 = length chromosome2" using assms by simp
  have pos: "0 < length chromosome1"
    using assms by (simp add: CHROMOSOME_SIZE_def GENE_SIZE_def)
  have "k mod (CHROMOSOME_SIZE * GENE_SIZE) < CHROMOSOME_SIZE * GENE_SIZE"
    by (simp add: CHROMOSOME_SIZE_def GENE_SIZE_def)
  then have "\<not> length chromosome1 - 1 < k mod (CHROMOSOME_SIZE * GENE_SIZE)"
    using assms by simp
  then have last: "offspring ! (length chromosome1 - 1) = chromosome2 ! (length chromosome1 - 1)"
    using pos by (simp add: off crossover_at_nth [OF eq])
  assume "chromosome1 ! (length chromosome1 - 1) \<noteq> chromosome2 ! (length chromosome1 - 1)"
  with last
  show "offspring ! (length chromosome1 - 1) \<noteq> chromosome1 ! (length chromosome1 - 1)"
    by simp
qed

theorem crossover_last_bit_from_parent2_witness:
  "length (replicate 36 (0::int)) = CHROMOSOME_SIZE * GENE_SIZE \<and>
   length (replicate 36 (1::int)) = CHROMOSOME_SIZE * GENE_SIZE \<and>
   (72::nat) mod (CHROMOSOME_SIZE * GENE_SIZE) = 0 \<and>
   crossover (replicate 36 0) (replicate 36 1) [72] = Some (replicate 36 1, []) \<and>
   crossover (replicate 36 0) (replicate 36 1) [35] = Some (replicate 35 0 @ [1], []) \<and>
   replicate 36 (0::int) ! (length (replicate 36 (0::int)) - 1)
     \<noteq> replicate 36 (1::int) ! (length (replicate 36 (0::int)) - 1) \<and>
   replicate 35 0 @ [1] \<noteq> replicate 36 (0::int) \<and>
   (replicate 35 0 @ [1]) ! (length (replicate 36 (0::int)) - 1)
     = replicate 36 (1::int) ! (length (replicate 36 (0::int)) - 1)"
proof -
  have l1: "length (replicate 36 (0::int)) = CHROMOSOME_SIZE * GENE_SIZE"
    and l2: "length (replicate 36 (1::int)) = CHROMOSOME_SIZE * GENE_SIZE"
    and m: "(72::nat) mod (CHROMOSOME_SIZE * GENE_SIZE) = 0"
    by (simp_all add: CHROMOSOME_SIZE_def GENE_SIZE_def)
  note main = crossover_last_bit_from_parent2 [OF l1 l2]
  have run0: "crossover (replicate 36 0) (replicate 36 1) [72] = Some (replicate 36 1, [])"
    using main [THEN conjunct1, rule_format, OF m] .
  have run: "crossover (replicate 36 0) (replicate 36 1) [35]
      = Some (replicate 35 0 @ [1], [])"
    by (simp add: crossover_Cons crossover_at_def CHROMOSOME_SIZE_def GENE_SIZE_def)
  have d: "replicate 36 (0::int) ! (length (replicate 36 (0::int)) - 1)
     \<noteq> replicate 36 (1::int) ! (length (replicate 36 (0::int)) - 1)"
    by simp
  from main [THEN conjunct2, rule_format, OF run] d l1 l2 m run0 run
  show ?thesis by blast
qed


section \<open>Selection\<close>

lemma np_greater_Fin: "np_greater (Fin a) (Fin b) = (b < a)"
  by (simp add: np_greater_def)

text \<open>
  The scan from position \<open>sel\<close> with running sum \<open>s\<close>: it stops at the first position
  whose fraction exceeds the draw, and at the last position when none does.
\<close>

lemma select_scan_least:
  "sel \<le> select_scan r t rest sel s \<and>
   select_scan r t rest sel s \<le> sel + length rest \<and>
   (\<forall>j. sel \<le> j \<and> j < select_scan r t rest sel s \<longrightarrow>
      \<not> np_greater
          (np_true_divide (foldl np_add s (map fitness (take (j - sel) rest))) t) (Fin r)) \<and>
   (select_scan r t rest sel s < sel + length rest \<longrightarrow>
      np_greater
        (np_true_divide
           (foldl np_add s (map fitness (take (select_scan r t rest sel s - sel) rest))) t)
        (Fin r))"
proof (induction rest arbitrary: sel s)
  case Nil
  then show ?case by auto
next
  case (Cons i rest)
  show ?case
  proof (cases "np_greater (np_true_divide s t) (Fin r)")
    case True
    then show ?thesis by simp
  next
    case False
    let ?s' = "np_add s (fitness i)"
    let ?k = "select_scan r t rest (Suc sel) ?s'"
    have k: "select_scan r t (i # rest) sel s = ?k"
      using False by simp
    note IH = Cons.IH [of "Suc sel" ?s']
    have a: "sel \<le> ?k" "?k \<le> sel + length (i # rest)" using IH by simp_all
    have b: "\<forall>j. sel \<le> j \<and> j < ?k \<longrightarrow>
       \<not> np_greater
           (np_true_divide (foldl np_add s (map fitness (take (j - sel) (i # rest)))) t)
           (Fin r)"
    proof (intro allI impI)
      fix j assume j: "sel \<le> j \<and> j < ?k"
      show "\<not> np_greater
           (np_true_divide (foldl np_add s (map fitness (take (j - sel) (i # rest)))) t)
           (Fin r)"
      proof (cases "j = sel")
        case True
        then show ?thesis using False by simp
      next
        case neq: False
        then have le: "Suc sel \<le> j" using j by simp
        then have "\<not> np_greater
            (np_true_divide (foldl np_add ?s' (map fitness (take (j - Suc sel) rest))) t)
            (Fin r)"
          using IH j by blast
        moreover have "j - sel = Suc (j - Suc sel)" using le by simp
        ultimately show ?thesis by simp
      qed
    qed
    have c: "?k < sel + length (i # rest) \<longrightarrow>
       np_greater
         (np_true_divide (foldl np_add s (map fitness (take (?k - sel) (i # rest)))) t)
         (Fin r)"
    proof
      assume "?k < sel + length (i # rest)"
      then have "np_greater
          (np_true_divide (foldl np_add ?s' (map fitness (take (?k - Suc sel) rest))) t)
          (Fin r)"
        using IH by simp
      moreover have "Suc sel \<le> ?k" using IH by blast
      then have "?k - sel = Suc (?k - Suc sel)" by simp
      ultimately show "np_greater
         (np_true_divide (foldl np_add s (map fitness (take (?k - sel) (i # rest)))) t)
         (Fin r)"
        by simp
    qed
    from a b c show ?thesis unfolding k by blast
  qed
qed

text \<open>A sum that is finite has only finite terms.\<close>

lemma np_add_nonfinite:
  "\<forall>x. a \<noteq> Fin x \<Longrightarrow> np_add a b \<noteq> Fin w" "\<forall>x. b \<noteq> Fin x \<Longrightarrow> np_add a b \<noteq> Fin w"
  by (cases a; cases b; simp)+

lemma foldl_np_add_nonfinite:
  "\<forall>x. a \<noteq> Fin x \<Longrightarrow> foldl np_add a vs \<noteq> Fin w"
proof (induction vs arbitrary: a)
  case Nil
  then show ?case by simp
next
  case (Cons v vs)
  have "\<forall>x. np_add a v \<noteq> Fin x" using Cons.prems np_add_nonfinite(1) by blast
  then show ?case using Cons.IH by simp
qed

lemma foldl_np_add_finite_terms:
  "foldl np_add (Fin s) vs = Fin t \<Longrightarrow> \<exists>fs. vs = map Fin fs"
proof (induction vs arbitrary: s)
  case Nil
  then show ?case by simp
next
  case (Cons v vs)
  have run: "foldl np_add (np_add (Fin s) v) vs = Fin t" using Cons.prems by simp
  obtain w where w: "np_add (Fin s) v = Fin w"
    using run foldl_np_add_nonfinite [of "np_add (Fin s) v" vs t] by blast
  obtain f where f: "v = Fin f"
    using w np_add_nonfinite(2) [of v "Fin s" w] by blast
  from Cons.IH [of w] run w obtain fs where "vs = map Fin fs" by auto
  then have "v # vs = map Fin (f # fs)" by (simp add: f)
  then show ?case by (rule exI)
qed

text \<open>
  C7, as the code has it. For a non-empty list of individuals, any total and any draw
  \<open>r\<close>: the selected index \<open>k\<close> is a position of the list; no index before \<open>k\<close> has a
  cumulative fraction above \<open>r\<close>; unless \<open>k\<close> is the final index, the fraction at \<open>k\<close> is
  above \<open>r\<close>; the fractions are the ones the method computes, the rounded running sum
  divided by the total and rounded. Index 0 is selected exactly when the list has one
  element or the computed fraction of the first individual is above \<open>r\<close>. The method
  itself returns \<open>k\<close> for the draw it reads. Index 0 is a possible outcome whenever the
  total is finite and positive: if the total is Python's sum of the fitness values of
  the stored individuals, and the first individual of the list is a stored individual
  of the greatest fitness, then the draw 0 selects index 0.
\<close>

theorem select_random_individual_correct:
  assumes "sorted_individuals \<noteq> []"
  shows "\<exists>k. select_index r sorted_individuals total_fitness = Inr k \<and>
           k < length sorted_individuals \<and>
           (\<forall>j<k. \<not> np_greater
                      (cumulative_fraction sorted_individuals total_fitness j) (Fin r)) \<and>
           (k < length sorted_individuals - 1 \<longrightarrow>
              np_greater (cumulative_fraction sorted_individuals total_fitness k) (Fin r)) \<and>
           (k = 0 \<longleftrightarrow>
              length sorted_individuals = 1 \<or>
              np_greater (cumulative_fraction sorted_individuals total_fitness 0) (Fin r)) \<and>
           (\<forall>w g. real (w mod 2 ^ 53) / 2 ^ 53 = r \<longrightarrow>
              select_random_individual sorted_individuals total_fitness (w # g)
                = Returns (k, g)) \<and>
           (\<forall>(stored :: individual list) t.
              total_fitness = py_sum (map fitness stored) \<and>
              total_fitness = Fin t \<and> 0 < t \<and>
              hd sorted_individuals \<in> set stored \<and>
              (\<forall>i \<in> set stored.
                 np_less_equal (fitness i) (fitness (hd sorted_individuals))) \<longrightarrow>
              select_index 0 sorted_individuals total_fitness = Inr 0 \<and>
              select_random_individual sorted_individuals total_fitness [0] = Returns (0, []))"
proof -
  obtain i rest where inds: "sorted_individuals = i # rest"
    using assms by (cases sorted_individuals) auto
  define k where "k = select_scan r total_fitness rest 0 (fitness i)"
  note spec = select_scan_least [of 0 r total_fitness rest "fitness i", folded k_def]
  have frac: "cumulative_fraction sorted_individuals total_fitness j
      = np_true_divide (foldl np_add (fitness i) (map fitness (take j rest))) total_fitness"
    for j
    by (simp add: cumulative_fraction_def cumulative_fitness_def inds)
  have sel: "select_index r sorted_individuals total_fitness = Inr k"
    by (simp add: select_index_def inds k_def)
  have bound: "k < length sorted_individuals"
    using spec by (simp add: inds)
  have before: "\<forall>j<k. \<not> np_greater
      (cumulative_fraction sorted_individuals total_fitness j) (Fin r)"
    using spec by (simp add: frac)
  have at: "k < length sorted_individuals - 1 \<longrightarrow>
      np_greater (cumulative_fraction sorted_individuals total_fitness k) (Fin r)"
    using spec unfolding frac by (simp add: inds)
  have first: "k = 0 \<longleftrightarrow>
      length sorted_individuals = 1 \<or>
      np_greater (cumulative_fraction sorted_individuals total_fitness 0) (Fin r)"
  proof (cases rest)
    case Nil
    then show ?thesis by (simp add: k_def inds)
  next
    case (Cons i' rest')
    have f0: "cumulative_fraction sorted_individuals total_fitness 0
        = np_true_divide (fitness i) total_fitness"
      by (simp add: frac)
    have len: "length sorted_individuals \<noteq> 1" by (simp add: inds Cons)
    show ?thesis
    proof (cases "np_greater (np_true_divide (fitness i) total_fitness) (Fin r)")
      case True
      then have "k = 0" by (simp add: k_def Cons)
      with True show ?thesis unfolding f0 by simp
    next
      case False
      have "Suc 0 \<le> select_scan r total_fitness rest' (Suc 0)
          (np_add (fitness i) (fitness i'))"
        using select_scan_least [of "Suc 0" r total_fitness rest'
            "np_add (fitness i) (fitness i')"] by blast
      then have "k \<noteq> 0" using False by (simp add: k_def Cons)
      with False len show ?thesis unfolding f0 by simp
    qed
  qed
  have draw: "\<forall>w g. real (w mod 2 ^ 53) / 2 ^ 53 = r \<longrightarrow>
      select_random_individual sorted_individuals total_fitness (w # g) = Returns (k, g)"
    using sel by (simp add: select_random_individual_def random_random_def)
  have possible: "\<forall>(stored :: individual list) t.
      total_fitness = py_sum (map fitness stored) \<and>
      total_fitness = Fin t \<and> 0 < t \<and>
      hd sorted_individuals \<in> set stored \<and>
      (\<forall>i \<in> set stored. np_less_equal (fitness i) (fitness (hd sorted_individuals))) \<longrightarrow>
      select_index 0 sorted_individuals total_fitness = Inr 0 \<and>
      select_random_individual sorted_individuals total_fitness [0] = Returns (0, [])"
  proof (intro allI impI, elim conjE)
    fix stored :: "individual list" and t
    assume tot: "total_fitness = py_sum (map fitness stored)" "total_fitness = Fin t"
      and t: "0 < t" and mem: "hd sorted_individuals \<in> set stored"
      and top: "\<forall>i \<in> set stored. np_less_equal (fitness i) (fitness (hd sorted_individuals))"
    have "foldl np_add (Fin 0) (map fitness stored) = Fin t"
      using tot by (simp add: py_sum_def)
    from foldl_np_add_finite_terms [OF this] obtain fs where
      fs: "map fitness stored = map Fin fs"
      by blast
    have "fitness i \<in> set (map Fin fs)" using mem fs by (metis image_eqI inds list.sel(1) set_map)
    then obtain f0 where hd: "fitness i = Fin f0" by auto
    have le: "\<forall>f \<in> set fs. f \<le> f0"
    proof
      fix f assume "f \<in> set fs"
      then have "Fin f \<in> set (map fitness stored)" by (simp add: fs)
      then obtain j where "j \<in> set stored" "fitness j = Fin f" by auto
      with top have "np_less_equal (Fin f) (Fin f0)" using hd by (metis inds list.sel(1))
      then show "f \<le> f0" by (simp add: np_less_equal_def)
    qed
    have "py_sum (map Fin fs) = Fin t" using tot fs by simp
    with le have "np_greater (float64 (f0 / t)) (Fin 0)"
      using t by (rule py_sum_fraction_positive)
    then have "np_greater (np_true_divide (fitness i) total_fitness) (Fin 0)"
      using hd tot(2) t by simp
    then have zero: "select_index 0 sorted_individuals total_fitness = Inr 0"
      by (cases rest) (simp_all add: select_index_def inds)
    then have "select_random_individual sorted_individuals total_fitness [0] = Returns (0, [])"
      by (simp add: select_random_individual_def random_random_def)
    with zero show "select_index 0 sorted_individuals total_fitness = Inr 0 \<and>
        select_random_individual sorted_individuals total_fitness [0] = Returns (0, [])"
      by simp
  qed
  show ?thesis
    by (intro exI [of _ k] conjI sel bound before at first draw possible)
qed

lemma fitness_sample_individual:
  "m \<noteq> 0 \<Longrightarrow> fitness (sample_individual c m) = float64 (1 / m)"
  by (simp add: sample_individual_def)

lemma fitness_sample_individuals:
  "fitness (sample_individual c 1) = Fin 1"
  "fitness (sample_individual c (1 / 2)) = Fin 2"
  "fitness (sample_individual c (1 / 3)) = Fin 3"
  by (simp_all add: fitness_sample_individual float64_1 float64_2 float64_3)

theorem select_random_individual_correct_witness:
  "select_index (1 / 2)
     [sample_individual [] (1 / 3), sample_individual [] (1 / 2), sample_individual [] 1]
     (Fin 6) = Inr 1 \<and>
   \<not> np_greater
       (cumulative_fraction
          [sample_individual [] (1 / 3), sample_individual [] (1 / 2), sample_individual [] 1]
          (Fin 6) 0)
       (Fin (1 / 2)) \<and>
   np_greater
     (cumulative_fraction
        [sample_individual [] (1 / 3), sample_individual [] (1 / 2), sample_individual [] 1]
        (Fin 6) 1)
     (Fin (1 / 2)) \<and>
   select_random_individual
     [sample_individual [] (1 / 3), sample_individual [] (1 / 2), sample_individual [] 1]
     (Fin 6) [2 ^ 52, 7] = Returns (1, [7]) \<and>
   py_sum (map fitness
     [sample_individual [] (1 / 3), sample_individual [] (1 / 2), sample_individual [] 1])
     = Fin 6 \<and>
   select_random_individual
     [sample_individual [] (1 / 3), sample_individual [] (1 / 2), sample_individual [] 1]
     (Fin 6) [0] = Returns (0, [])"
proof -
  let ?inds = "[sample_individual [] (1 / 3), sample_individual [] (1 / 2),
                sample_individual [] 1]"
  have w: "real ((2 ^ 52) mod 2 ^ 53) / 2 ^ 53 = 1 / 2" by simp
  have fit: "map fitness ?inds = map Fin [3, 2, 1]"
    by (simp add: fitness_sample_individuals)
  have tot: "py_sum (map fitness ?inds) = Fin 6"
    by (simp add: fitness_sample_individuals py_sum_def float64_3 float64_5 float64_6)
  have ne: "?inds \<noteq> []" by simp
  from select_random_individual_correct [OF ne, where r = "1 / 2" and total_fitness = "Fin 6"]
  obtain k where k: "select_index (1 / 2) ?inds (Fin 6) = Inr k"
    "k < length ?inds - 1 \<longrightarrow> np_greater (cumulative_fraction ?inds (Fin 6) k) (Fin (1 / 2))"
    "\<forall>j<k. \<not> np_greater (cumulative_fraction ?inds (Fin 6) j) (Fin (1 / 2))"
    "\<forall>w g. real (w mod 2 ^ 53) / 2 ^ 53 = 1 / 2 \<longrightarrow>
       select_random_individual ?inds (Fin 6) (w # g) = Returns (k, g)"
    "\<forall>(stored :: individual list) t.
       Fin 6 = py_sum (map fitness stored) \<and> Fin 6 = Fin t \<and> 0 < t \<and>
       hd ?inds \<in> set stored \<and>
       (\<forall>i \<in> set stored. np_less_equal (fitness i) (fitness (hd ?inds))) \<longrightarrow>
       select_index 0 ?inds (Fin 6) = Inr 0 \<and>
       select_random_individual ?inds (Fin 6) [0] = Returns (0, [])"
    by (elim exE conjE) (rule that, assumption+)
  have "select_index (1 / 2) ?inds (Fin 6) = Inr 1"
    by (simp add: select_index_def fitness_sample_individuals np_greater_Fin
        float64_half float64_5 float64_five_sixths)
  with k(1) have k1: "k = 1" by simp
  have "np_greater (cumulative_fraction ?inds (Fin 6) 1) (Fin (1 / 2))"
    using k(2) k1 by simp
  moreover have "\<not> np_greater (cumulative_fraction ?inds (Fin 6) 0) (Fin (1 / 2))"
    using k(3) k1 by simp
  moreover have "select_random_individual ?inds (Fin 6) [2 ^ 52, 7] = Returns (1, [7])"
    using k(4) k1 w by blast
  moreover have "select_random_individual ?inds (Fin 6) [0] = Returns (0, [])"
  proof -
    have "Fin 6 = py_sum (map fitness ?inds) \<and> Fin 6 = Fin 6 \<and> (0::real) < 6 \<and>
        hd ?inds \<in> set ?inds \<and>
        (\<forall>i \<in> set ?inds. np_less_equal (fitness i) (fitness (hd ?inds)))"
      using tot by (simp add: fitness_sample_individuals np_less_equal_def)
    with k(5) show ?thesis by blast
  qed
  ultimately show ?thesis using k(1) k1 tot by simp
qed

text \<open>
  C7 as stated fails twice. At fitness 2 and 1, total 3, the draw
  \<open>6004799503160661 / 2^53\<close> is below the fraction 2/3 of the first individual, yet the
  method returns index 1: the quotient it compares is the binary64 value of 2/3, which
  is that draw. At fitness \<open>2^1023\<close> twice the total overflows to infinity, every
  computed fraction before the final index is 0, and no draw selects index 0.
\<close>

theorem select_random_individual_rounds_fraction:
  "map fitness two_to_one = [Fin 2, Fin 1] \<and>
   py_sum (map fitness two_to_one) = Fin 3 \<and>
   real (two_thirds_word mod 2 ^ 53) / 2 ^ 53 < exact_fraction [2, 1] 0 \<and>
   select_random_individual two_to_one (py_sum (map fitness two_to_one)) [two_thirds_word]
     = Returns (1, []) \<and>
   map fitness huge_pair = [Fin huge_fitness, Fin huge_fitness] \<and>
   py_sum (map fitness huge_pair) = PInf \<and>
   (\<forall>r. select_index \<bar>r\<bar> huge_pair (py_sum (map fitness huge_pair)) = Inr 1)"
proof -
  have fit: "map fitness two_to_one = [Fin 2, Fin 1]"
    by (simp add: two_to_one_def fitness_sample_individuals)
  have tot: "py_sum (map fitness two_to_one) = Fin 3"
    by (simp add: fit py_sum_def float64_2 float64_3)
  have exact: "real (two_thirds_word mod 2 ^ 53) / 2 ^ 53 < exact_fraction [2, 1] 0"
    by (simp add: two_thirds_word_def exact_fraction_def)
  have draw: "random_random [two_thirds_word] = Some (6004799503160661 / 2 ^ 53, [])"
    by (simp add: random_random_def two_thirds_word_def)
  have sel: "select_random_individual two_to_one (py_sum (map fitness two_to_one))
      [two_thirds_word] = Returns (1, [])"
    unfolding tot
    by (simp add: select_random_individual_def draw select_index_def two_to_one_def
        fitness_sample_individuals float64_two_thirds np_greater_Fin)
  have "huge_fitness \<noteq> 0" by (simp add: huge_fitness_def)
  then have huge: "fitness (sample_individual [] (1 / huge_fitness)) = Fin huge_fitness"
    by (simp add: fitness_sample_individual float64_huge_fitness)
  have hfit: "map fitness huge_pair = [Fin huge_fitness, Fin huge_fitness]"
    by (simp add: huge_pair_def huge)
  have htot: "py_sum (map fitness huge_pair) = PInf"
    by (simp add: hfit py_sum_def float64_huge_fitness float64_huge_fitness_twice)
  have hsel: "\<forall>r. select_index \<bar>r\<bar> huge_pair (py_sum (map fitness huge_pair)) = Inr 1"
    unfolding htot by (simp add: select_index_def huge_pair_def huge np_greater_Fin)
  from fit tot exact sel hfit htot hsel show ?thesis by blast
qed

section \<open>The design matrix\<close>

lemma collect_all_Inr:
  "(\<And>v. v \<in> set vs \<Longrightarrow> f v = Inr (h v)) \<Longrightarrow> collect f vs = Inr (map h vs)"
  by (induction vs) simp_all

lemma collect_Inr_length:
  "collect f vs = Inr ws \<Longrightarrow> length ws = length vs"
  by (induction vs arbitrary: ws) (auto split: sum.splits)

lemma collect_Inr_nth:
  "collect f vs = Inr ws \<Longrightarrow> i < length vs \<Longrightarrow> f (vs ! i) = Inr (ws ! i)"
proof (induction vs arbitrary: ws i)
  case Nil
  then show ?case by simp
next
  case (Cons v vs)
  then show ?case by (cases i) (auto split: sum.splits)
qed

lemma map2_same_range:
  "map2 f (map g ts) (map h ts) = map (\<lambda>t. f (g t) (h t)) ts"
  by (induction ts) simp_all

lemma first_frames_column_ok:
  assumes "TIME_FRAMES \<le> nrows x" and "j < ncols x"
  shows "first_frames_column x j = Inr (map (\<lambda>t. cell x t j) [0..<TIME_FRAMES])"
  using assms by (simp add: first_frames_column_def min_def)

lemma coupling_terms_ok:
  assumes "TIME_FRAMES \<le> nrows x" and "NUMBER_OF_NODES \<le> ncols x"
    and "NUMBER_OF_NODES \<le> nrows a" and "NUMBER_OF_NODES \<le> ncols a"
    and "2 < length ps" and "i < NUMBER_OF_NODES"
    and "set js \<subseteq> {0..<NUMBER_OF_NODES}"
  shows "coupling_terms np x a ps i (map (\<lambda>t. cell x t i) [0..<TIME_FRAMES]) js
       = Inr (map (\<lambda>j. map (\<lambda>t. cell a j i * np_power np (cell x t i) (ps ! 1)
                                   * np_power np (cell x t j) (ps ! 2)) [0..<TIME_FRAMES])
                (filter (\<lambda>j. j \<noteq> i \<and> cell a j i \<noteq> 0) js))"
  using assms(7)
proof (induction js)
  case Nil
  show ?case by simp
next
  case (Cons j js)
  then have j: "j < NUMBER_OF_NODES" and js: "set js \<subseteq> {0..<NUMBER_OF_NODES}"
    by simp_all
  have col: "first_frames_column x j = Inr (map (\<lambda>t. cell x t j) [0..<TIME_FRAMES])"
    using assms(1,2) j by (intro first_frames_column_ok) simp_all
  have rng: "\<not> (nrows a \<le> j \<or> ncols a \<le> i)"
    using assms(3,4,6) j by simp
  show ?case
    using Cons.IH [OF js] assms(5) rng
    by (simp add: col map2_same_range)
qed

lemma sum_axis0_maps:
  assumes "js \<noteq> []"
  shows "sum_axis0 (map (\<lambda>j. map (F j) [0..<n]) js)
       = map (\<lambda>t. sum_list (map (\<lambda>j. F j t) js)) [0..<n]"
proof -
  have hd: "length (hd (map (\<lambda>j. map (F j) [0..<n]) js)) = n"
    using assms by (cases js) simp_all
  have "map (\<lambda>t. sum_list (map (\<lambda>term. term ! t) (map (\<lambda>j. map (F j) [0..<n]) js))) [0..<n]
      = map (\<lambda>t. sum_list (map (\<lambda>j. F j t) js)) [0..<n]"
  proof (rule map_cong [OF refl])
    fix t assume "t \<in> set [0..<n]"
    then have "t < n" by simp
    then have "map (\<lambda>term. term ! t) (map (\<lambda>j. map (F j) [0..<n]) js) = map (\<lambda>j. F j t) js"
      by simp
    then show "sum_list (map (\<lambda>term. term ! t) (map (\<lambda>j. map (F j) [0..<n]) js))
        = sum_list (map (\<lambda>j. F j t) js)"
      by (rule arg_cong)
  qed
  then show ?thesis unfolding sum_axis0_def hd .
qed

lemma column_stack_two:
  "column_stack [replicate n c, map g [0..<n]] = Inr (map (\<lambda>t. [c, g t]) [0..<n])"
  by (simp add: column_stack_def)

lemma column_stack_three:
  "column_stack ([replicate n c, map g [0..<n]] @ [map h [0..<n]])
     = Inr (map (\<lambda>t. [c, g t, h t]) [0..<n])"
  by (simp add: column_stack_def)

lemma theta_block_ok:
  assumes "TIME_FRAMES \<le> nrows x" and "NUMBER_OF_NODES \<le> ncols x"
    and "NUMBER_OF_NODES \<le> nrows a" and "NUMBER_OF_NODES \<le> ncols a"
    and "2 < length ps" and "i < NUMBER_OF_NODES"
  shows "theta_block np x a ps i = Inr (map (design_row np x a ps i) [0..<TIME_FRAMES])"
proof -
  let ?F = "\<lambda>j t. cell a j i * np_power np (cell x t i) (ps ! 1)
                     * np_power np (cell x t j) (ps ! 2)"
  have col: "first_frames_column x i = Inr (map (\<lambda>t. cell x t i) [0..<TIME_FRAMES])"
    using assms(1,2,6) by (intro first_frames_column_ok) simp_all
  have terms: "coupling_terms np x a ps i (map (\<lambda>t. cell x t i) [0..<TIME_FRAMES])
        [0..<NUMBER_OF_NODES]
      = Inr (map (\<lambda>j. map (?F j) [0..<TIME_FRAMES]) (in_neighbours a i))"
    unfolding in_neighbours_def
    using assms by (intro coupling_terms_ok) simp_all
  have ps: "ps \<noteq> []" using assms(5) by auto
  show ?thesis
  proof (cases "in_neighbours a i = []")
    case True
    then show ?thesis
      using ps
      by (simp add: theta_block_def col terms column_stack_two design_row_def o_def)
  next
    case False
    have "column_stack ([replicate TIME_FRAMES 1,
              map (\<lambda>t. np_power np (cell x t i) (ps ! 0)) [0..<TIME_FRAMES]]
            @ [sum_axis0 (map (\<lambda>j. map (?F j) [0..<TIME_FRAMES]) (in_neighbours a i))])
        = Inr (map (design_row np x a ps i) [0..<TIME_FRAMES])"
      unfolding sum_axis0_maps [OF False] column_stack_three
      using False by (simp add: design_row_def coupling_sum_def)
    then show ?thesis
      using ps False
      by (simp add: theta_block_def col terms o_def)
  qed
qed

lemma get_theta_ok:
  assumes "TIME_FRAMES \<le> nrows x" and "NUMBER_OF_NODES \<le> ncols x"
    and "NUMBER_OF_NODES \<le> nrows a" and "NUMBER_OF_NODES \<le> ncols a"
    and "2 < length ps"
    and "\<forall>i<NUMBER_OF_NODES. in_neighbours a i \<noteq> []"
  shows "get_theta np x a ps
       = Inr (concat (map (\<lambda>i. map (design_row np x a ps i) [0..<TIME_FRAMES])
                        [0..<NUMBER_OF_NODES]))"
proof -
  have blocks: "collect (theta_block np x a ps) [0..<NUMBER_OF_NODES]
      = Inr (map (\<lambda>i. map (design_row np x a ps i) [0..<TIME_FRAMES]) [0..<NUMBER_OF_NODES])"
    using assms by (intro collect_all_Inr theta_block_ok) simp_all
  have width: "\<And>i. i < NUMBER_OF_NODES \<Longrightarrow>
      length (hd (map (design_row np x a ps i) [0..<TIME_FRAMES])) = 3"
    using assms(6) by (simp add: TIME_FRAMES_def upt_conv_Cons design_row_def)
  have "concatenate_rows
          (map (\<lambda>i. map (design_row np x a ps i) [0..<TIME_FRAMES]) [0..<NUMBER_OF_NODES])
      = Inr (concat (map (\<lambda>i. map (design_row np x a ps i) [0..<TIME_FRAMES])
                        [0..<NUMBER_OF_NODES]))"
    unfolding concatenate_rows_def
    using width by (auto simp: NUMBER_OF_NODES_def hd_map upt_conv_Cons)
  then show ?thesis
    unfolding get_theta_def blocks by simp
qed

lemma in_neighbours_empty_iff:
  "in_neighbours a i = [] \<longleftrightarrow> \<not> (\<exists>j<NUMBER_OF_NODES. j \<noteq> i \<and> cell a j i \<noteq> 0)"
  by (auto simp: in_neighbours_def filter_empty_conv)

lemma nth_concat_uniform:
  assumes "\<forall>b \<in> set bs. length b = m" and "n < length bs" and "t < m"
  shows "concat bs ! (n * m + t) = bs ! n ! t"
  using assms
proof (induction bs arbitrary: n)
  case Nil
  then show ?case by simp
next
  case (Cons b bs)
  show ?case
  proof (cases n)
    case 0
    then show ?thesis using Cons.prems by (simp add: nth_append)
  next
    case (Suc k)
    then have "concat bs ! (k * m + t) = bs ! k ! t"
      using Cons by simp
    moreover have "\<not> Suc k * m + t < m" by simp
    moreover have "Suc k * m + t - m = k * m + t" by simp
    ultimately show ?thesis
      using Cons.prems Suc by (simp add: nth_append del: mult_Suc)
  qed
qed

lemma length_concat_uniform:
  "\<forall>b \<in> set bs. length b = m \<Longrightarrow> length (concat bs) = length bs * m"
  by (induction bs) simp_all

text \<open>
  C5. For a trajectory array with at least \<open>TIME_FRAMES\<close> rows and a column per node, an
  adjacency array with a row and a column per node, and a triple of powers, the block of
  node \<open>i\<close> has \<open>TIME_FRAMES\<close> rows; in row \<open>t\<close> entry 0 is 1 and entry 1 is
  \<open>X[t, i] ** powers[0]\<close>; the row has a third entry exactly when some node \<open>j \<noteq> i\<close>
  has \<open>A[j, i] \<noteq> 0\<close> (and two entries otherwise), and then that entry is the sum over
  those \<open>j\<close> of \<open>A[j, i] * X[t, i] ** powers[1] * X[t, j] ** powers[2]\<close>. When every
  node has such a neighbour the stacked matrix is built without error, has
  \<open>NUMBER_OF_NODES * TIME_FRAMES\<close> rows of exactly 3 entries, and row
  \<open>n * TIME_FRAMES + t\<close> is row \<open>t\<close> of the block of node \<open>n\<close>.
\<close>

theorem get_theta_design_blocks:
  assumes "TIME_FRAMES \<le> nrows x" and "NUMBER_OF_NODES \<le> ncols x"
    and "NUMBER_OF_NODES \<le> nrows a" and "NUMBER_OF_NODES \<le> ncols a"
    and "length ps = CHROMOSOME_SIZE" and "i < NUMBER_OF_NODES"
  shows "(\<exists>block. theta_block np x a ps i = Inr block \<and> length block = TIME_FRAMES \<and>
            (\<forall>t<TIME_FRAMES.
               block ! t ! 0 = 1 \<and>
               block ! t ! 1 = np_power np (cell x t i) (ps ! 0) \<and>
               (length (block ! t) = 3 \<longleftrightarrow> (\<exists>j<NUMBER_OF_NODES. j \<noteq> i \<and> cell a j i \<noteq> 0)) \<and>
               (length (block ! t) = 2 \<longleftrightarrow> \<not> (\<exists>j<NUMBER_OF_NODES. j \<noteq> i \<and> cell a j i \<noteq> 0)) \<and>
               ((\<exists>j<NUMBER_OF_NODES. j \<noteq> i \<and> cell a j i \<noteq> 0) \<longrightarrow>
                  block ! t ! 2 =
                    (\<Sum>j\<leftarrow>filter (\<lambda>j. j \<noteq> i \<and> cell a j i \<noteq> 0) [0..<NUMBER_OF_NODES].
                       cell a j i * np_power np (cell x t i) (ps ! 1)
                         * np_power np (cell x t j) (ps ! 2))))) \<and>
         ((\<forall>n<NUMBER_OF_NODES. \<exists>j<NUMBER_OF_NODES. j \<noteq> n \<and> cell a j n \<noteq> 0) \<longrightarrow>
            (\<exists>theta blocks. get_theta np x a ps = Inr theta \<and>
               collect (theta_block np x a ps) [0..<NUMBER_OF_NODES] = Inr blocks \<and>
               length theta = NUMBER_OF_NODES * TIME_FRAMES \<and>
               (\<forall>row \<in> set theta. length row = 3) \<and>
               (\<forall>n<NUMBER_OF_NODES. \<forall>t<TIME_FRAMES.
                  theta ! (n * TIME_FRAMES + t) = blocks ! n ! t)))"
proof (intro conjI impI)
  have ps: "2 < length ps" using assms(5) by (simp add: CHROMOSOME_SIZE_def)
  let ?block = "map (design_row np x a ps i) [0..<TIME_FRAMES]"
  have block: "theta_block np x a ps i = Inr ?block"
    using assms(1-4) ps assms(6) by (rule theta_block_ok)
  have rows: "\<forall>t<TIME_FRAMES.
               ?block ! t ! 0 = 1 \<and>
               ?block ! t ! 1 = np_power np (cell x t i) (ps ! 0) \<and>
               (length (?block ! t) = 3 \<longleftrightarrow> (\<exists>j<NUMBER_OF_NODES. j \<noteq> i \<and> cell a j i \<noteq> 0)) \<and>
               (length (?block ! t) = 2 \<longleftrightarrow> \<not> (\<exists>j<NUMBER_OF_NODES. j \<noteq> i \<and> cell a j i \<noteq> 0)) \<and>
               ((\<exists>j<NUMBER_OF_NODES. j \<noteq> i \<and> cell a j i \<noteq> 0) \<longrightarrow>
                  ?block ! t ! 2 =
                    (\<Sum>j\<leftarrow>filter (\<lambda>j. j \<noteq> i \<and> cell a j i \<noteq> 0) [0..<NUMBER_OF_NODES].
                       cell a j i * np_power np (cell x t i) (ps ! 1)
                         * np_power np (cell x t j) (ps ! 2)))"
  proof (intro allI impI)
    fix t assume t: "t < TIME_FRAMES"
    then have nth: "?block ! t = design_row np x a ps i t" by simp
    show "?block ! t ! 0 = 1 \<and>
               ?block ! t ! 1 = np_power np (cell x t i) (ps ! 0) \<and>
               (length (?block ! t) = 3 \<longleftrightarrow> (\<exists>j<NUMBER_OF_NODES. j \<noteq> i \<and> cell a j i \<noteq> 0)) \<and>
               (length (?block ! t) = 2 \<longleftrightarrow> \<not> (\<exists>j<NUMBER_OF_NODES. j \<noteq> i \<and> cell a j i \<noteq> 0)) \<and>
               ((\<exists>j<NUMBER_OF_NODES. j \<noteq> i \<and> cell a j i \<noteq> 0) \<longrightarrow>
                  ?block ! t ! 2 =
                    (\<Sum>j\<leftarrow>filter (\<lambda>j. j \<noteq> i \<and> cell a j i \<noteq> 0) [0..<NUMBER_OF_NODES].
                       cell a j i * np_power np (cell x t i) (ps ! 1)
                         * np_power np (cell x t j) (ps ! 2)))"
    proof (cases "in_neighbours a i = []")
      case True
      then have no: "\<not> (\<exists>j<NUMBER_OF_NODES. j \<noteq> i \<and> cell a j i \<noteq> 0)"
        by (simp add: in_neighbours_empty_iff)
      have row: "?block ! t = [1, np_power np (cell x t i) (ps ! 0)]"
        unfolding nth by (simp add: design_row_def True)
      show ?thesis unfolding row using no by auto
    next
      case False
      then have yes: "\<exists>j<NUMBER_OF_NODES. j \<noteq> i \<and> cell a j i \<noteq> 0"
        by (simp add: in_neighbours_empty_iff)
      have row: "?block ! t = [1, np_power np (cell x t i) (ps ! 0),
          (\<Sum>j\<leftarrow>filter (\<lambda>j. j \<noteq> i \<and> cell a j i \<noteq> 0) [0..<NUMBER_OF_NODES].
             cell a j i * np_power np (cell x t i) (ps ! 1)
               * np_power np (cell x t j) (ps ! 2))]"
        unfolding nth using False
        by (simp add: design_row_def coupling_sum_def in_neighbours_def)
      show ?thesis unfolding row using yes by auto
    qed
  qed
  from block rows
  show "\<exists>block. theta_block np x a ps i = Inr block \<and> length block = TIME_FRAMES \<and>
            (\<forall>t<TIME_FRAMES.
               block ! t ! 0 = 1 \<and>
               block ! t ! 1 = np_power np (cell x t i) (ps ! 0) \<and>
               (length (block ! t) = 3 \<longleftrightarrow> (\<exists>j<NUMBER_OF_NODES. j \<noteq> i \<and> cell a j i \<noteq> 0)) \<and>
               (length (block ! t) = 2 \<longleftrightarrow> \<not> (\<exists>j<NUMBER_OF_NODES. j \<noteq> i \<and> cell a j i \<noteq> 0)) \<and>
               ((\<exists>j<NUMBER_OF_NODES. j \<noteq> i \<and> cell a j i \<noteq> 0) \<longrightarrow>
                  block ! t ! 2 =
                    (\<Sum>j\<leftarrow>filter (\<lambda>j. j \<noteq> i \<and> cell a j i \<noteq> 0) [0..<NUMBER_OF_NODES].
                       cell a j i * np_power np (cell x t i) (ps ! 1)
                         * np_power np (cell x t j) (ps ! 2))))"
    by (intro exI [of _ ?block]) simp
next
  assume all: "\<forall>n<NUMBER_OF_NODES. \<exists>j<NUMBER_OF_NODES. j \<noteq> n \<and> cell a j n \<noteq> 0"
  have ps: "2 < length ps" using assms(5) by (simp add: CHROMOSOME_SIZE_def)
  let ?blocks = "map (\<lambda>n. map (design_row np x a ps n) [0..<TIME_FRAMES]) [0..<NUMBER_OF_NODES]"
  have nb: "\<forall>n<NUMBER_OF_NODES. in_neighbours a n \<noteq> []"
    using all by (simp add: in_neighbours_empty_iff)
  have theta: "get_theta np x a ps = Inr (concat ?blocks)"
    using assms(1-4) ps nb by (rule get_theta_ok)
  have blocks: "collect (theta_block np x a ps) [0..<NUMBER_OF_NODES] = Inr ?blocks"
    using assms(1-4) ps by (intro collect_all_Inr theta_block_ok) simp_all
  have uni: "\<forall>b \<in> set ?blocks. length b = TIME_FRAMES" by auto
  have len: "length (concat ?blocks) = NUMBER_OF_NODES * TIME_FRAMES"
    using length_concat_uniform [OF uni] by simp
  have width: "\<forall>row \<in> set (concat ?blocks). length row = 3"
    using nb by (auto simp: design_row_def)
  have pos: "\<forall>n<NUMBER_OF_NODES. \<forall>t<TIME_FRAMES.
      concat ?blocks ! (n * TIME_FRAMES + t) = ?blocks ! n ! t"
    using nth_concat_uniform [OF uni] by simp
  from theta blocks len width pos
  show "\<exists>theta blocks. get_theta np x a ps = Inr theta \<and>
               collect (theta_block np x a ps) [0..<NUMBER_OF_NODES] = Inr blocks \<and>
               length theta = NUMBER_OF_NODES * TIME_FRAMES \<and>
               (\<forall>row \<in> set theta. length row = 3) \<and>
               (\<forall>n<NUMBER_OF_NODES. \<forall>t<TIME_FRAMES.
                  theta ! (n * TIME_FRAMES + t) = blocks ! n ! t)"
    by blast
qed

lemma constant_array_neighbours:
  "v \<noteq> 0 \<Longrightarrow>
   \<forall>n<NUMBER_OF_NODES. \<exists>j<NUMBER_OF_NODES. j \<noteq> n \<and> cell (constant_array r c v) j n \<noteq> 0"
proof (intro allI impI)
  fix n assume "v \<noteq> 0" "n < NUMBER_OF_NODES"
  then show "\<exists>j<NUMBER_OF_NODES. j \<noteq> n \<and> cell (constant_array r c v) j n \<noteq> 0"
    by (cases "n = 0")
      (auto simp: constant_array_def NUMBER_OF_NODES_def intro: exI [of _ 0] exI [of _ 1])
qed

theorem get_theta_design_blocks_witness:
  "(\<exists>block. theta_block sample_numpy (constant_array 20 10 2) (constant_array 10 10 1)
               [1, 1, 1] 0 = Inr block \<and>
      length block = TIME_FRAMES \<and>
      (\<forall>t<TIME_FRAMES. block ! t ! 0 = 1 \<and> block ! t ! 1 = 2 \<and> length (block ! t) = 3)) \<and>
   (\<exists>theta. get_theta sample_numpy (constant_array 20 10 2) (constant_array 10 10 1)
               [1, 1, 1] = Inr theta \<and>
      length theta = 200 \<and> (\<forall>row \<in> set theta. length row = 3))"
proof -
  let ?x = "constant_array 20 10 2" and ?a = "constant_array 10 10 1"
  have h: "TIME_FRAMES \<le> nrows ?x" "NUMBER_OF_NODES \<le> ncols ?x"
    "NUMBER_OF_NODES \<le> nrows ?a" "NUMBER_OF_NODES \<le> ncols ?a"
    "length [1, 1, 1 :: real] = CHROMOSOME_SIZE" "0 < NUMBER_OF_NODES"
    by (simp_all add: constant_array_def TIME_FRAMES_def NUMBER_OF_NODES_def CHROMOSOME_SIZE_def)
  have nb: "\<forall>n<NUMBER_OF_NODES. \<exists>j<NUMBER_OF_NODES. j \<noteq> n \<and> cell ?a j n \<noteq> 0"
    by (rule constant_array_neighbours) simp
  note main = get_theta_design_blocks [OF h, of sample_numpy]
  from main [THEN conjunct1] obtain block where
    b: "theta_block sample_numpy ?x ?a [1, 1, 1] 0 = Inr block" "length block = TIME_FRAMES"
    and rows: "\<forall>t<TIME_FRAMES. block ! t ! 0 = 1 \<and>
        block ! t ! 1 = np_power sample_numpy (cell ?x t 0) ([1, 1, 1] ! 0) \<and>
        (length (block ! t) = 3 \<longleftrightarrow> (\<exists>j<NUMBER_OF_NODES. j \<noteq> 0 \<and> cell ?a j 0 \<noteq> 0))"
    by blast
  have "\<forall>t<TIME_FRAMES. block ! t ! 0 = 1 \<and> block ! t ! 1 = 2 \<and> length (block ! t) = 3"
  proof (intro allI impI)
    fix t assume t: "t < TIME_FRAMES"
    have "np_power sample_numpy (cell ?x t 0) ([1, 1, 1] ! 0) = 2"
      by (simp add: sample_numpy_def constant_array_def)
    moreover have "\<exists>j<NUMBER_OF_NODES. j \<noteq> 0 \<and> cell ?a j 0 \<noteq> 0"
      using nb h(6) by blast
    ultimately show "block ! t ! 0 = 1 \<and> block ! t ! 1 = 2 \<and> length (block ! t) = 3"
      using rows t by simp
  qed
  moreover from main [THEN conjunct2, THEN mp, OF nb] obtain theta where
    "get_theta sample_numpy ?x ?a [1, 1, 1] = Inr theta"
    "length theta = NUMBER_OF_NODES * TIME_FRAMES" "\<forall>row \<in> set theta. length row = 3"
    by blast
  ultimately show ?thesis
    using b by (auto simp: NUMBER_OF_NODES_def TIME_FRAMES_def)
qed


section \<open>Completing an individual\<close>

lemma matmul_vec_zero:
  "matmul_vec theta (replicate n 0) = replicate (length theta) 0"
proof -
  have row: "sum_list (map2 (*) row (replicate n 0)) = (0::real)" for row :: "real list"
  proof (induction row arbitrary: n)
    case Nil
    show ?case by simp
  next
    case (Cons v row)
    then show ?case by (cases n) simp_all
  qed
  show ?thesis
    unfolding matmul_vec_def
    by (simp only: row) (simp add: map_replicate_const)
qed

lemma mean_squared_error_zero_prediction:
  "mean_squared_error ys (replicate (length ys) 0)
     = sum_list (map (\<lambda>v. v ^ 2) ys) / real (length ys)"
proof -
  have "map2 (\<lambda>v w. (v - w) ^ 2) ys (replicate n 0) = map (\<lambda>v. v ^ 2) (take n ys)" for n
  proof (induction ys arbitrary: n)
    case Nil
    show ?case by simp
  next
    case (Cons v ys)
    then show ?case by (cases n) simp_all
  qed
  from this [of "length ys"] show ?thesis
    by (simp add: mean_squared_error_def)
qed

lemma mean_squared_error_nonneg: "0 \<le> mean_squared_error ys zs"
proof -
  have "0 \<le> sum_list (map2 (\<lambda>v w. (v - w) ^ 2) ys zs)"
    by (rule sum_list_nonneg) (auto simp: set_zip)
  then show ?thesis by (simp add: mean_squared_error_def)
qed

lemma get_theta_shape:
  assumes "TIME_FRAMES \<le> nrows x" and "NUMBER_OF_NODES \<le> ncols x"
    and "NUMBER_OF_NODES \<le> nrows a" and "NUMBER_OF_NODES \<le> ncols a"
    and "2 < length ps"
    and "\<forall>n<NUMBER_OF_NODES. \<exists>j<NUMBER_OF_NODES. j \<noteq> n \<and> cell a j n \<noteq> 0"
  shows "\<exists>theta. get_theta np x a ps = Inr theta \<and>
           length theta = NUMBER_OF_NODES * TIME_FRAMES \<and> (\<forall>row \<in> set theta. length row = 3)"
proof -
  let ?blocks = "map (\<lambda>n. map (design_row np x a ps n) [0..<TIME_FRAMES]) [0..<NUMBER_OF_NODES]"
  have nb: "\<forall>n<NUMBER_OF_NODES. in_neighbours a n \<noteq> []"
    using assms(6) by (simp add: in_neighbours_empty_iff)
  have theta: "get_theta np x a ps = Inr (concat ?blocks)"
    using assms(1-5) nb by (rule get_theta_ok)
  have uni: "\<forall>b \<in> set ?blocks. length b = TIME_FRAMES" by auto
  have len: "length (concat ?blocks) = NUMBER_OF_NODES * TIME_FRAMES"
    using length_concat_uniform [OF uni] by simp
  have width: "\<forall>row \<in> set (concat ?blocks). length row = 3"
    using nb by (auto simp: design_row_def)
  from theta len width show ?thesis by blast
qed

lemma decode_powers_ok:
  "CHROMOSOME_SIZE * GENE_SIZE \<le> length c \<Longrightarrow>
   \<exists>ps. decode_powers c = Inr ps \<and> length ps = CHROMOSOME_SIZE"
  by (simp add: decode_powers_def)

lemma whole_columns_ok:
  assumes "NUMBER_OF_NODES \<le> ncols y"
  shows "collect (whole_column y) [0..<NUMBER_OF_NODES]
       = Inr (map (\<lambda>j. map (\<lambda>t. cell y t j) [0..<nrows y]) [0..<NUMBER_OF_NODES])"
  using assms by (intro collect_all_Inr) (simp add: whole_column_def)

text \<open>
  With a solver that returns the zero vector, on arrays of the shapes the driver builds
  and a network in which every node has an incoming neighbour, the error of an
  individual is the mean square of the stacked target, whatever the chromosome.
\<close>

lemma get_complete_individual_zero_solver:
  assumes "TIME_FRAMES \<le> nrows x" and "NUMBER_OF_NODES \<le> ncols x"
    and "NUMBER_OF_NODES \<le> nrows a" and "NUMBER_OF_NODES \<le> ncols a"
    and "\<forall>n<NUMBER_OF_NODES. \<exists>j<NUMBER_OF_NODES. j \<noteq> n \<and> cell a j n \<noteq> 0"
    and "nrows y = TIME_FRAMES" and "NUMBER_OF_NODES \<le> ncols y"
    and "np_lstsq np = (\<lambda>theta stacked_y. replicate (length (hd theta)) 0)"
    and "decode_powers c = Inr ps" and "length ps = CHROMOSOME_SIZE"
    and "m = sum_list (map (\<lambda>v. v ^ 2)
               (concat (map (\<lambda>j. map (\<lambda>t. cell y t j) [0..<nrows y]) [0..<NUMBER_OF_NODES])))
             / real (NUMBER_OF_NODES * TIME_FRAMES)"
  shows "get_complete_individual np x y a c
       = Inr (\<lparr>chromosome = c, powers = ps, coefficients = [0, 0, 0], mse = m,
               fitness = np_true_divide (Fin 1) (Fin m)\<rparr>,
              true_divide_warnings (Fin 1) (Fin m))"
proof -
  let ?ycols = "map (\<lambda>j. map (\<lambda>t. cell y t j) [0..<nrows y]) [0..<NUMBER_OF_NODES]"
  have ps: "length ps = CHROMOSOME_SIZE" by (rule assms(10))
  have "2 < length ps" using ps by (simp add: CHROMOSOME_SIZE_def)
  from get_theta_shape [OF assms(1-4) this assms(5)]
  obtain theta where theta: "get_theta np x a ps = Inr theta"
    "length theta = NUMBER_OF_NODES * TIME_FRAMES" "\<forall>row \<in> set theta. length row = 3"
    by blast
  have "theta \<noteq> []"
    using theta(2) by (auto simp: NUMBER_OF_NODES_def TIME_FRAMES_def)
  then have hd: "length (hd theta) = 3"
    using theta(3) by (cases theta) simp_all
  have ycols: "collect (whole_column y) [0..<NUMBER_OF_NODES] = Inr ?ycols"
    using assms(7) by (rule whole_columns_ok)
  have "\<forall>b \<in> set ?ycols. length b = TIME_FRAMES"
    using assms(6) by auto
  from length_concat_uniform [OF this]
  have ylen: "length (concat ?ycols) = length theta"
    by (simp add: theta(2))
  have coeffs: "np_lstsq np theta (concat ?ycols) = replicate 3 0"
    by (simp add: assms(8) hd)
  have three: "replicate 3 (0::real) = [0, 0, 0]"
    by (simp add: numeral_3_eq_3)
  have "mean_squared_error (concat ?ycols) (matmul_vec theta (replicate 3 0)) = m"
    unfolding matmul_vec_zero ylen [symmetric] mean_squared_error_zero_prediction
    by (simp add: assms(11) ylen theta(2))
  then show ?thesis
    unfolding get_complete_individual_def
    by (simp add: assms(9) theta(1) ycols ylen coeffs hd three [symmetric] Let_def)
qed

lemma sum_list_map_const_on:
  "\<forall>v \<in> set vs. f v = (c::real) \<Longrightarrow> sum_list (map f vs) = c * real (length vs)"
  by (induction vs) (simp_all add: algebra_simps)

lemma decode_powers_zeros:
  "decode_powers (replicate 36 0) = Inr [0, 0, 0]"
  using decode_powers_replicate [of 0]
  by (simp add: msb_first_value_zeros CHROMOSOME_SIZE_def GENE_SIZE_def POWER_RANGE_def
      numeral_3_eq_3)

lemma sample_shapes:
  "TIME_FRAMES \<le> nrows (constant_array 20 10 v)"
  "NUMBER_OF_NODES \<le> ncols (constant_array 20 10 v)"
  "NUMBER_OF_NODES \<le> nrows (constant_array 10 10 v)"
  "NUMBER_OF_NODES \<le> ncols (constant_array 10 10 v)"
  "nrows (constant_array 20 10 v) = TIME_FRAMES"
  "nrows (alternating_array 20 10) = TIME_FRAMES"
  "NUMBER_OF_NODES \<le> ncols (alternating_array 20 10)"
  "np_lstsq sample_numpy = (\<lambda>theta stacked_y. replicate (length (hd theta)) 0)"
  by (simp_all add: constant_array_def alternating_array_def sample_numpy_def TIME_FRAMES_def
      NUMBER_OF_NODES_def)

lemma stacked_squares_zero:
  "sum_list (map (\<lambda>v. v ^ 2)
     (concat (map (\<lambda>j. map (\<lambda>t. cell (constant_array 20 10 0) t j)
                          [0..<nrows (constant_array 20 10 0)]) [0..<NUMBER_OF_NODES])))
     / real (NUMBER_OF_NODES * TIME_FRAMES) = 0"
proof -
  have "sum_list (map (\<lambda>v. v ^ 2)
     (concat (map (\<lambda>j. map (\<lambda>t. cell (constant_array 20 10 0) t j)
                          [0..<nrows (constant_array 20 10 0)]) [0..<NUMBER_OF_NODES])))
      = 0 * real (length
     (concat (map (\<lambda>j. map (\<lambda>t. cell (constant_array 20 10 0) t j)
                          [0..<nrows (constant_array 20 10 0)]) [0..<NUMBER_OF_NODES])))"
    by (rule sum_list_map_const_on) (auto simp: constant_array_def)
  then show ?thesis by simp
qed

lemma stacked_squares_alternating:
  "sum_list (map (\<lambda>v. v ^ 2)
     (concat (map (\<lambda>j. map (\<lambda>t. cell (alternating_array 20 10) t j)
                          [0..<nrows (alternating_array 20 10)]) [0..<NUMBER_OF_NODES])))
     / real (NUMBER_OF_NODES * TIME_FRAMES) = 1"
proof -
  let ?ys = "concat (map (\<lambda>j. map (\<lambda>t. cell (alternating_array 20 10) t j)
                          [0..<nrows (alternating_array 20 10)]) [0..<NUMBER_OF_NODES])"
  have "sum_list (map (\<lambda>v. v ^ 2) ?ys) = 1 * real (length ?ys)"
    by (rule sum_list_map_const_on) (auto simp: alternating_array_def)
  moreover have "length ?ys = NUMBER_OF_NODES * TIME_FRAMES"
    using length_concat_uniform [of "map (\<lambda>j. map (\<lambda>t. cell (alternating_array 20 10) t j)
                          [0..<nrows (alternating_array 20 10)]) [0..<NUMBER_OF_NODES]" TIME_FRAMES]
    by (simp add: sample_shapes)
  ultimately show ?thesis
    by (simp add: NUMBER_OF_NODES_def TIME_FRAMES_def)
qed

text \<open>
  On the sample data every chromosome of full length is completed to an individual of
  error 1 when the target alternates, and of error 0 when the target is zero.
\<close>

lemma sample_individual_alternating:
  assumes "decode_powers c = Inr ps"
  shows "get_complete_individual sample_numpy (constant_array 20 10 1) (alternating_array 20 10)
           (constant_array 10 10 1) c
       = Inr (\<lparr>chromosome = c, powers = ps, coefficients = [0, 0, 0], mse = 1,
               fitness = Fin 1\<rparr>, [])"
proof -
  have len: "length ps = CHROMOSOME_SIZE"
    using assms by (auto simp: decode_powers_def split: if_splits)
  have nb: "\<forall>n<NUMBER_OF_NODES. \<exists>j<NUMBER_OF_NODES. j \<noteq> n \<and> cell (constant_array 10 10 1) j n \<noteq> 0"
    by (rule constant_array_neighbours) simp
  from get_complete_individual_zero_solver [OF sample_shapes(1-4) nb sample_shapes(6-8) assms len
      stacked_squares_alternating [symmetric]]
  show ?thesis by (simp add: float64_1)
qed

lemma sample_individual_zero_target:
  assumes "decode_powers c = Inr ps"
  shows "get_complete_individual sample_numpy (constant_array 20 10 1) (constant_array 20 10 0)
           (constant_array 10 10 1) c
       = Inr (\<lparr>chromosome = c, powers = ps, coefficients = [0, 0, 0], mse = 0,
               fitness = PInf\<rparr>, [DivideByZeroWarning])"
proof -
  have len: "length ps = CHROMOSOME_SIZE"
    using assms by (auto simp: decode_powers_def split: if_splits)
  have nb: "\<forall>n<NUMBER_OF_NODES. \<exists>j<NUMBER_OF_NODES. j \<noteq> n \<and> cell (constant_array 10 10 1) j n \<noteq> 0"
    by (rule constant_array_neighbours) simp
  from get_complete_individual_zero_solver [OF sample_shapes(1-4) nb sample_shapes(5,2,8) assms
      len stacked_squares_zero [symmetric]]
  show ?thesis by simp
qed

text \<open>
  On the tiny alternating target the error is \<open>2^-1040\<close>: the fitness overflows to
  infinity and the division emits the overflow warning.
\<close>

lemma stacked_squares_tiny:
  "sum_list (map (\<lambda>v. v ^ 2)
     (concat (map (\<lambda>j. map (\<lambda>t. cell (tiny_alternating_array 20 10) t j)
                          [0..<nrows (tiny_alternating_array 20 10)]) [0..<NUMBER_OF_NODES])))
     / real (NUMBER_OF_NODES * TIME_FRAMES) = tiny_target ^ 2"
proof -
  let ?ys = "concat (map (\<lambda>j. map (\<lambda>t. cell (tiny_alternating_array 20 10) t j)
                          [0..<nrows (tiny_alternating_array 20 10)]) [0..<NUMBER_OF_NODES])"
  have "sum_list (map (\<lambda>v. v ^ 2) ?ys) = tiny_target ^ 2 * real (length ?ys)"
    by (rule sum_list_map_const_on) (auto simp: tiny_alternating_array_def)
  moreover have "length ?ys = NUMBER_OF_NODES * TIME_FRAMES"
    using length_concat_uniform [of "map (\<lambda>j. map (\<lambda>t. cell (tiny_alternating_array 20 10) t j)
                          [0..<nrows (tiny_alternating_array 20 10)]) [0..<NUMBER_OF_NODES]" TIME_FRAMES]
    by (simp add: tiny_alternating_array_def TIME_FRAMES_def)
  ultimately show ?thesis
    by (simp add: NUMBER_OF_NODES_def TIME_FRAMES_def)
qed

lemma tiny_target_overflows:
  "0 < tiny_target ^ 2" "tiny_target ^ 2 \<le> 1 / 2 ^ 1024"
  "np_true_divide (Fin 1) (Fin (tiny_target ^ 2)) = PInf"
  "true_divide_warnings (Fin 1) (Fin (tiny_target ^ 2)) = [OverflowWarning]"
proof -
  have sq: "tiny_target ^ 2 = 1 / 2 ^ 1040"
    by (simp add: tiny_target_def power_divide)
  show pos: "0 < tiny_target ^ 2" by (simp add: tiny_target_def)
  show "tiny_target ^ 2 \<le> 1 / 2 ^ 1024" unfolding sq by simp
  have "(2::real) ^ 1024 \<le> 1 / tiny_target ^ 2" unfolding sq by simp
  then have "float64 (1 / tiny_target ^ 2) = PInf" by (rule float64_overflow)
  then show "np_true_divide (Fin 1) (Fin (tiny_target ^ 2)) = PInf"
    "true_divide_warnings (Fin 1) (Fin (tiny_target ^ 2)) = [OverflowWarning]"
    using pos by simp_all
qed

lemma sample_individual_tiny_target:
  assumes "decode_powers c = Inr ps"
  shows "get_complete_individual sample_numpy (constant_array 20 10 1)
           (tiny_alternating_array 20 10) (constant_array 10 10 1) c
       = Inr (\<lparr>chromosome = c, powers = ps, coefficients = [0, 0, 0], mse = tiny_target ^ 2,
               fitness = PInf\<rparr>, [OverflowWarning])"
proof -
  have len: "length ps = CHROMOSOME_SIZE"
    using assms by (auto simp: decode_powers_def split: if_splits)
  have nb: "\<forall>n<NUMBER_OF_NODES. \<exists>j<NUMBER_OF_NODES. j \<noteq> n \<and> cell (constant_array 10 10 1) j n \<noteq> 0"
    by (rule constant_array_neighbours) simp
  have shape: "nrows (tiny_alternating_array 20 10) = TIME_FRAMES"
    "NUMBER_OF_NODES \<le> ncols (tiny_alternating_array 20 10)"
    by (simp_all add: tiny_alternating_array_def TIME_FRAMES_def NUMBER_OF_NODES_def)
  from get_complete_individual_zero_solver [OF sample_shapes(1-4) nb shape sample_shapes(8)
      assms len stacked_squares_tiny [symmetric]]
  show ?thesis by (simp only: tiny_target_overflows(3,4))
qed

text \<open>
  C1, as the code has it. The error of a completed individual is never negative. When it
  is positive the fitness field is the binary64 quotient \<open>1 / mse\<close>, the exact quotient
  rounded: a finite number, and no warning, when the error is at least \<open>2^-1023\<close>;
  positive infinity, with numpy's overflow RuntimeWarning, when the error is at most
  \<open>2^-1024\<close>; and a warning in every case exactly when the quotient is infinite. When the
  error is zero there is no guard and no sentinel: the same division \<open>1 / mse\<close> runs on a
  numpy float, returns positive infinity and emits numpy's divide-by-zero
  RuntimeWarning; no exception is raised.
\<close>

theorem complete_individual_fitness:
  assumes "get_complete_individual np x y a c = Inr (ind, ws)"
  shows "0 \<le> mse ind \<and>
         (0 < mse ind \<longrightarrow>
            fitness ind = float64 (1 / mse ind) \<and>
            ws = (if fitness ind = PInf then [OverflowWarning] else [])) \<and>
         (1 / 2 ^ 1023 \<le> mse ind \<longrightarrow> (\<exists>f. fitness ind = Fin f \<and> 0 \<le> f) \<and> ws = []) \<and>
         (0 < mse ind \<and> mse ind \<le> 1 / 2 ^ 1024 \<longrightarrow>
            fitness ind = PInf \<and> ws = [OverflowWarning]) \<and>
         (mse ind = 0 \<longrightarrow> fitness ind = PInf \<and> ws = [DivideByZeroWarning])"
proof -
  from assms obtain m where m: "mse ind = m" "0 \<le> m"
    "fitness ind = np_true_divide (Fin 1) (Fin m)" "ws = true_divide_warnings (Fin 1) (Fin m)"
    unfolding get_complete_individual_def
    by (auto simp: Let_def mean_squared_error_nonneg split: sum.splits if_splits)
  have pos: "fitness ind = float64 (1 / m) \<and>
      ws = (if fitness ind = PInf then [OverflowWarning] else [])" if "0 < m"
  proof -
    have "0 < 1 / m" using that by simp
    then have "float64 (1 / m) \<noteq> NInf" by (simp add: float64_def)
    then show ?thesis using that m(3,4) by simp
  qed
  have normal: "(\<exists>f. fitness ind = Fin f \<and> 0 \<le> f) \<and> ws = []" if "1 / 2 ^ 1023 \<le> m"
  proof -
    have mp: "0 < m" using that by (smt (verit) divide_pos_pos zero_less_power)
    have "1 / m \<le> 1 / (1 / 2 ^ 1023)"
      using that by (intro divide_left_mono) simp_all
    then have "1 / m \<le> 2 ^ 1023" by simp
    moreover have "0 \<le> 1 / m" using mp by simp
    ultimately obtain f where "float64 (1 / m) = Fin f" "0 \<le> f"
      using float64_finite by blast
    then show ?thesis using pos [OF mp] by simp
  qed
  have tiny: "fitness ind = PInf \<and> ws = [OverflowWarning]" if "0 < m" "m \<le> 1 / 2 ^ 1024"
  proof -
    have "1 / (1 / 2 ^ 1024) \<le> 1 / m"
      using that by (intro divide_left_mono) simp_all
    then have "2 ^ 1024 \<le> 1 / m" by simp
    then have "float64 (1 / m) = PInf" by (rule float64_overflow)
    then show ?thesis using pos [OF that(1)] by simp
  qed
  have zero: "fitness ind = PInf \<and> ws = [DivideByZeroWarning]" if "m = 0"
    using that m(3,4) by simp
  from m(1,2) pos normal tiny zero show ?thesis by blast
qed

theorem complete_individual_fitness_witness:
  "get_complete_individual sample_numpy (constant_array 20 10 1) (alternating_array 20 10)
     (constant_array 10 10 1) (replicate 36 0)
     = Inr (\<lparr>chromosome = replicate 36 0, powers = [0, 0, 0], coefficients = [0, 0, 0],
             mse = 1, fitness = Fin 1\<rparr>, []) \<and>
   (0::real) < 1 \<and> Fin 1 = float64 (1 / 1) \<and>
   get_complete_individual sample_numpy (constant_array 20 10 1) (tiny_alternating_array 20 10)
     (constant_array 10 10 1) (replicate 36 0)
     = Inr (\<lparr>chromosome = replicate 36 0, powers = [0, 0, 0], coefficients = [0, 0, 0],
             mse = tiny_target ^ 2, fitness = PInf\<rparr>, [OverflowWarning]) \<and>
   0 < tiny_target ^ 2 \<and> tiny_target ^ 2 \<le> 1 / 2 ^ 1024"
proof -
  let ?ind = "\<lparr>chromosome = replicate 36 0, powers = [0, 0, 0], coefficients = [0, 0, 0],
             mse = 1, fitness = Fin 1\<rparr>"
  have run: "get_complete_individual sample_numpy (constant_array 20 10 1)
      (alternating_array 20 10) (constant_array 10 10 1) (replicate 36 0) = Inr (?ind, [])"
    by (rule sample_individual_alternating [OF decode_powers_zeros])
  from complete_individual_fitness [OF run] have "Fin 1 = float64 (1 / 1)" by simp
  with run sample_individual_tiny_target [OF decode_powers_zeros] tiny_target_overflows(1,2)
  show ?thesis by simp
qed

text \<open>
  C1 as stated fails on the zero target: every fit is exact, the error is 0, and the
  division by it is carried out as it stands, with the warning numpy attaches to it.
\<close>

theorem complete_individual_zero_mse_unguarded:
  "get_complete_individual sample_numpy (constant_array 20 10 1) (constant_array 20 10 0)
     (constant_array 10 10 1) (replicate 36 0)
     = Inr (\<lparr>chromosome = replicate 36 0, powers = [0, 0, 0], coefficients = [0, 0, 0],
             mse = 0, fitness = PInf\<rparr>, [DivideByZeroWarning])"
  by (rule sample_individual_zero_target [OF decode_powers_zeros])


section \<open>Sorting by descending fitness\<close>

lemma length_insort_by: "length (insort_by key v ws) = Suc (length ws)"
  by (induction ws) simp_all

lemma set_insort_by: "set (insort_by key v ws) = insert v (set ws)"
  by (induction ws) auto

lemma length_py_sorted: "length (py_sorted key vs) = length vs"
  by (induction vs) (simp_all add: py_sorted_def length_insort_by)

lemma set_py_sorted: "set (py_sorted key vs) = set vs"
  by (induction vs) (simp_all add: py_sorted_def set_insort_by)

lemma np_less_irrefl: "\<not> np_less a a"
  by (cases a) simp_all

lemma np_less_trans: "np_less a b \<Longrightarrow> np_less b c \<Longrightarrow> np_less a c"
  by (cases a; cases b; cases c) simp_all

lemma np_less_total: "a \<noteq> NaN \<Longrightarrow> b \<noteq> NaN \<Longrightarrow> np_less a b \<or> a = b \<or> np_less b a"
  by (cases a; cases b) auto

lemma np_not_less_trans:
  "b \<noteq> NaN \<Longrightarrow> \<not> np_less b a \<Longrightarrow> \<not> np_less c b \<Longrightarrow> \<not> np_less c a"
  by (cases a; cases b; cases c) auto

lemma sorted_insort_by:
  assumes "key v \<noteq> NaN" and "\<forall>w \<in> set ws. key w \<noteq> NaN"
    and "sorted_wrt (\<lambda>p q. \<not> np_less (key q) (key p)) ws"
  shows "sorted_wrt (\<lambda>p q. \<not> np_less (key q) (key p)) (insort_by key v ws)"
  using assms(2,3)
proof (induction ws)
  case Nil
  show ?case by simp
next
  case (Cons w ws)
  show ?case
  proof (cases "np_less (key w) (key v)")
    case True
    then have "\<not> np_less (key v) (key w)"
      using np_less_trans np_less_irrefl by blast
    then show ?thesis
      using Cons True by (auto simp: set_insort_by)
  next
    case False
    have "\<forall>q \<in> set ws. \<not> np_less (key q) (key v)"
    proof
      fix q assume "q \<in> set ws"
      then have "\<not> np_less (key q) (key w)" using Cons.prems by simp
      with False show "\<not> np_less (key q) (key v)"
        using np_not_less_trans [of "key w" "key v" "key q"] Cons.prems by simp
    qed
    then show ?thesis using Cons.prems False by simp
  qed
qed

lemma sorted_py_sorted:
  "\<forall>v \<in> set vs. key v \<noteq> NaN \<Longrightarrow>
   sorted_wrt (\<lambda>p q. \<not> np_less (key q) (key p)) (py_sorted key vs)"
proof (induction vs)
  case Nil
  show ?case by (simp add: py_sorted_def)
next
  case (Cons v vs)
  then have "sorted_wrt (\<lambda>p q. \<not> np_less (key q) (key p)) (py_sorted key vs)" by simp
  moreover have "\<forall>w \<in> set (py_sorted key vs). key w \<noteq> NaN"
    using Cons.prems by (simp add: set_py_sorted)
  ultimately have "sorted_wrt (\<lambda>p q. \<not> np_less (key q) (key p))
      (insort_by key v (py_sorted key vs))"
    using Cons.prems by (intro sorted_insort_by) simp_all
  then show ?case by (simp add: py_sorted_def)
qed

lemma py_sorted_equal_keys:
  "\<forall>v \<in> set vs. key v = k \<Longrightarrow> py_sorted key vs = vs"
proof (induction vs)
  case Nil
  show ?case by (simp add: py_sorted_def)
next
  case (Cons v vs)
  then have eq: "py_sorted key vs = vs" by simp
  have "insort_by key v vs = v # vs"
    using Cons.prems by (cases vs) (simp_all add: np_less_irrefl)
  then show ?case using eq by (simp add: py_sorted_def)
qed

lemma descending_key_NaN: "descending_key i = NaN \<longleftrightarrow> fitness i = NaN"
  unfolding descending_key_def by (cases "fitness i") simp_all

lemma descending_key_less:
  "np_less (descending_key p) (descending_key q) = np_less (fitness q) (fitness p)"
  unfolding descending_key_def by (cases "fitness p"; cases "fitness q") simp_all

text \<open>The head of a descending sort is a member of the greatest fitness.\<close>

lemma hd_take_py_sorted_greatest:
  assumes "\<forall>i \<in> set inds. fitness i \<noteq> NaN"
    and "take n (py_sorted descending_key inds) \<noteq> []"
  shows "hd (take n (py_sorted descending_key inds)) \<in> set inds \<and>
         (\<forall>i \<in> set inds. np_less_equal (fitness i)
            (fitness (hd (take n (py_sorted descending_key inds)))))"
proof -
  let ?s = "py_sorted descending_key inds"
  from assms(2) obtain h rest where s: "?s = h # rest" and n: "n \<noteq> 0"
    by (cases ?s; cases n) auto
  have hd: "hd (take n ?s) = h" using s n by (cases n) simp_all
  have mem: "h \<in> set inds"
    using s set_py_sorted [of descending_key inds] by (metis list.set_intros(1))
  have "sorted_wrt (\<lambda>p q. \<not> np_less (descending_key q) (descending_key p)) ?s"
    using assms(1) by (intro sorted_py_sorted) (simp add: descending_key_NaN)
  then have rest: "\<forall>q \<in> set rest. \<not> np_less (fitness h) (fitness q)"
    unfolding s by (simp add: descending_key_less)
  have "\<forall>i \<in> set inds. np_less_equal (fitness i) (fitness h)"
  proof
    fix i assume i: "i \<in> set inds"
    then have "i \<in> set (h # rest)" using s set_py_sorted [of descending_key inds] by metis
    then have "\<not> np_less (fitness h) (fitness i)"
      using rest np_less_irrefl by auto
    then show "np_less_equal (fitness i) (fitness h)"
      using assms(1) i mem by (simp add: np_less_equal_def)
  qed
  with hd mem show ?thesis by simp
qed

section \<open>One generation\<close>

lemma children_loop_length:
  assumes "children_loop stored sorted_inds tf children g = Returns (children', g')"
    and "length children \<le> CHILDREN"
  shows "length children' = CHILDREN"
  using assms
proof (induction stored sorted_inds tf children g rule: children_loop.induct)
  case (1 stored sorted_inds tf children g)
  show ?case
  proof (cases "CHILDREN \<le> length children")
    case True
    then show ?thesis
      using "1.prems" by (simp add: children_loop.simps [of stored sorted_inds tf children g])
  next
    case False
    then have lt: "length children < CHILDREN" by simp
    from "1.prems"(1) False obtain i1 g1 i2 g2 where
      s1: "select_random_individual sorted_inds tf g = Returns (i1, g1)"
      and s2: "select_random_individual sorted_inds tf g1 = Returns (i2, g2)"
      by (subst (asm) children_loop.simps) (auto split: outcome.splits)
    show ?thesis
    proof (cases "i1 = i2")
      case True
      have "children_loop stored sorted_inds tf children g2 = Returns (children', g')"
        using "1.prems"(1) False s1 s2 True
        by (subst (asm) children_loop.simps) simp
      then show ?thesis
        using "1.IH"(2) [OF False s1 refl s2 refl _ _ "1.prems"(2)] True by simp
    next
      case neq: False
      from "1.prems"(1) False s1 s2 neq obtain c1 c2 off g3 m g4 where
        pc: "parent_chromosomes stored i1 i2 = Inr (c1, c2)"
        and cr: "crossover c1 c2 g2 = Some (off, g3)"
        and mu: "mutation off g3 = Returns (m, g4)"
        and rec: "children_loop stored sorted_inds tf (children @ [m]) g4
                    = Returns (children', g')"
        by (subst (asm) children_loop.simps)
          (auto split: outcome.splits sum.splits option.splits)
      have "length (children @ [m]) \<le> CHILDREN" using lt by simp
      from "1.IH"(1) [OF False s1 refl s2 refl neq pc refl cr refl mu refl rec this]
      show ?thesis .
    qed
  qed
qed

lemma get_complete_individuals_length:
  "get_complete_individuals np self cs = Inr inds \<Longrightarrow> length inds = length cs"
  unfolding get_complete_individuals_def by (rule collect_Inr_length)

lemma get_complete_individual_not_NaN:
  assumes "get_complete_individual np x y a c = Inr (ind, ws)"
  shows "fitness ind \<noteq> NaN"
  using assms unfolding get_complete_individual_def
  by (auto simp: Let_def float64_not_NaN split: sum.splits if_splits)

lemma collect_Inr_set:
  assumes "collect f vs = Inr ws" and "w \<in> set ws"
  shows "\<exists>v \<in> set vs. f v = Inr w"
proof -
  from assms(2) obtain i where i: "i < length ws" "ws ! i = w"
    by (auto simp: in_set_conv_nth)
  then have "i < length vs" using collect_Inr_length [OF assms(1)] by simp
  with collect_Inr_nth [OF assms(1) this] i show ?thesis by auto
qed

lemma get_complete_individuals_not_NaN:
  assumes "get_complete_individuals np self cs = Inr inds"
  shows "\<forall>i \<in> set inds. fitness i \<noteq> NaN"
proof
  fix i assume "i \<in> set inds"
  from collect_Inr_set [OF assms [unfolded get_complete_individuals_def] this]
  obtain c where "(case get_complete_individual np (self_x self) (self_y self)
                          (self_adjacency_matrix self) c of
                    Inl e \<Rightarrow> Inl e
                  | Inr (completed, warnings) \<Rightarrow> Inr completed) = Inr i"
    by blast
  then obtain ws where "get_complete_individual np (self_x self) (self_y self)
      (self_adjacency_matrix self) c = Inr (i, ws)"
    by (auto split: sum.splits)
  then show "fitness i \<noteq> NaN" by (rule get_complete_individual_not_NaN)
qed

text \<open>What a generation that returns has done.\<close>

lemma run_single_iteration_Returns:
  assumes "run_single_iteration np self g = Returns (fittest, self', g')"
  shows "\<exists>children completed.
           children_loop (self_individuals self)
             (py_sorted descending_key (self_individuals self))
             (py_sum (map fitness (self_individuals self))) [] g = Returns (children, g') \<and>
           length children = CHILDREN \<and>
           get_complete_individuals np self children = Inr completed \<and>
           length completed = CHILDREN \<and>
           self_individuals self'
             = take (self_size self)
                 (py_sorted descending_key (self_individuals self @ completed)) \<and>
           self_individuals self' \<noteq> [] \<and>
           fittest = hd (self_individuals self') \<and>
           self' = self\<lparr>self_individuals := self_individuals self'\<rparr>"
proof -
  from assms obtain children completed where
    loop: "children_loop (self_individuals self)
             (py_sorted descending_key (self_individuals self))
             (py_sum (map fitness (self_individuals self))) [] g = Returns (children, g')"
    and comp: "get_complete_individuals np self children = Inr completed"
    and kept: "take (self_size self)
                 (py_sorted descending_key (self_individuals self @ completed)) \<noteq> []"
    and res: "fittest = hd (take (self_size self)
                 (py_sorted descending_key (self_individuals self @ completed)))"
      "self' = self\<lparr>self_individuals := take (self_size self)
                 (py_sorted descending_key (self_individuals self @ completed))\<rparr>"
    unfolding run_single_iteration_def
    by (auto simp: Let_def split: outcome.splits sum.splits if_splits)
  have len: "length children = CHILDREN"
    using children_loop_length [OF loop] by simp
  then have "length completed = CHILDREN"
    using get_complete_individuals_length [OF comp] by simp
  with loop comp kept res len show ?thesis by auto
qed


lemma get_complete_individual_chromosome:
  "get_complete_individual np x y a c = Inr (ind, ws) \<Longrightarrow> chromosome ind = c"
  unfolding get_complete_individual_def
  by (auto simp: Let_def split: sum.splits if_splits)

lemma random_bits_length:
  "random_bits n g = Some (bs, g') \<Longrightarrow> length bs = n"
  by (induction n arbitrary: g bs) (auto split: option.splits)

lemma get_initial_individuals_length:
  "get_initial_individuals n g = Some (cs, g') \<Longrightarrow> length cs = n"
  by (induction n arbitrary: g cs) (auto split: option.splits)

lemma get_initial_individuals_chromosome_length:
  "get_initial_individuals n g = Some (cs, g') \<Longrightarrow>
   \<forall>c \<in> set cs. length c = CHROMOSOME_SIZE * GENE_SIZE"
  by (induction n arbitrary: g cs) (auto split: option.splits simp: random_bits_length)

lemma population_init_Returns:
  assumes "population_init np n x y a g = Returns (self, g')"
  shows "\<exists>cs. get_initial_individuals n g = Some (cs, g') \<and>
           get_complete_individuals np
             \<lparr>self_size = n, self_x = x, self_y = y, self_adjacency_matrix = a,
              self_individuals = []\<rparr> cs = Inr (self_individuals self) \<and>
           self_size self = n \<and> self_x self = x \<and> self_y self = y \<and>
           self_adjacency_matrix self = a"
  using assms unfolding population_init_def
  by (auto simp: Let_def split: option.splits sum.splits)

text \<open>
  C8. The population constructor returns a population of exactly \<open>size\<close> individuals,
  each the completion of its own chromosome. A generation that starts from a population
  of exactly \<open>size\<close> individuals and returns leaves \<open>size\<close> unchanged and stores exactly
  \<open>size\<close> individuals again: the first \<open>size\<close> of the current individuals followed by the
  \<open>CHILDREN\<close> completed children, sorted by descending fitness.
\<close>

theorem population_size_invariant:
  "(population_init np n x y a g = Returns (self, g') \<longrightarrow>
      self_size self = n \<and> length (self_individuals self) = n \<and>
      (\<forall>i \<in> set (self_individuals self).
         \<exists>ws. get_complete_individual np x y a (chromosome i) = Inr (i, ws))) \<and>
   (length (self_individuals self0) = self_size self0 \<and>
    run_single_iteration np self0 g0 = Returns (fittest, self1, g1) \<longrightarrow>
      self_size self1 = self_size self0 \<and>
      length (self_individuals self1) = self_size self1 \<and>
      (\<exists>completed. length completed = CHILDREN \<and>
         self_individuals self1
           = take (self_size self0)
               (py_sorted descending_key (self_individuals self0 @ completed))))"
proof (intro conjI impI)
  assume init: "population_init np n x y a g = Returns (self, g')"
  let ?blank = "\<lparr>self_size = n, self_x = x, self_y = y, self_adjacency_matrix = a,
              self_individuals = []\<rparr>"
  from population_init_Returns [OF init] obtain cs where
    cs: "get_initial_individuals n g = Some (cs, g')"
    and comp: "get_complete_individuals np ?blank cs = Inr (self_individuals self)"
    and sz: "self_size self = n"
    by blast
  show "self_size self = n" by (rule sz)
  show "length (self_individuals self) = n"
    using get_complete_individuals_length [OF comp] get_initial_individuals_length [OF cs]
    by simp
  show "\<forall>i \<in> set (self_individuals self).
         \<exists>ws. get_complete_individual np x y a (chromosome i) = Inr (i, ws)"
  proof
    fix i assume "i \<in> set (self_individuals self)"
    from collect_Inr_set [OF comp [unfolded get_complete_individuals_def] this]
    obtain c where "(case get_complete_individual np x y a c of
                       Inl e \<Rightarrow> Inl e
                     | Inr (completed, warnings) \<Rightarrow> Inr completed) = Inr i"
      by auto
    then obtain ws where "get_complete_individual np x y a c = Inr (i, ws)"
      by (cases "get_complete_individual np x y a c") auto
    then show "\<exists>ws. get_complete_individual np x y a (chromosome i) = Inr (i, ws)"
      using get_complete_individual_chromosome by blast
  qed
next
  assume a: "length (self_individuals self0) = self_size self0 \<and>
    run_single_iteration np self0 g0 = Returns (fittest, self1, g1)"
  from run_single_iteration_Returns [OF a [THEN conjunct2]] obtain completed where
    len: "length completed = CHILDREN"
    and kept: "self_individuals self1
           = take (self_size self0)
               (py_sorted descending_key (self_individuals self0 @ completed))"
    and upd: "self1 = self0\<lparr>self_individuals := self_individuals self1\<rparr>"
    by blast
  have sz: "self_size self1 = self_size self0"
    by (subst upd) simp
  show "self_size self1 = self_size self0" by (rule sz)
  show "length (self_individuals self1) = self_size self1"
    using a by (simp add: kept sz length_py_sorted)
  show "\<exists>completed. length completed = CHILDREN \<and>
         self_individuals self1
           = take (self_size self0)
               (py_sorted descending_key (self_individuals self0 @ completed))"
    using len kept by blast
qed

text \<open>
  C3. When a generation returns from a population whose fitness values are comparable
  (none is NaN; finite values are), the individual it returns is stored in the new
  population and its fitness is at least the fitness of every individual of the
  population before the step. Hence the individual returned by the next generation has
  at least the fitness of the one returned by this generation.
\<close>

theorem best_fitness_monotone:
  assumes "run_single_iteration np self g = Returns (fittest, self', g')"
    and "\<forall>i \<in> set (self_individuals self). fitness i \<noteq> NaN"
  shows "fittest \<in> set (self_individuals self') \<and>
         (\<forall>i \<in> set (self_individuals self). np_less_equal (fitness i) (fitness fittest)) \<and>
         (\<forall>g2 fittest2 self2 g2'.
            run_single_iteration np self' g2 = Returns (fittest2, self2, g2') \<longrightarrow>
            np_less_equal (fitness fittest) (fitness fittest2))"
proof -
  have step: "hd (self_individuals q') \<in> set (self_individuals q') \<and>
      (\<forall>i \<in> set (self_individuals q). np_less_equal (fitness i) (fitness f)) \<and>
      (\<forall>i \<in> set (self_individuals q'). fitness i \<noteq> NaN) \<and> f = hd (self_individuals q')"
    if run: "run_single_iteration np q h = Returns (f, q', h')"
      and ok: "\<forall>i \<in> set (self_individuals q). fitness i \<noteq> NaN"
    for q h f q' h'
  proof -
    from run_single_iteration_Returns [OF run] obtain children completed where
      comp: "get_complete_individuals np q children = Inr completed"
      and kept: "self_individuals q'
           = take (self_size q) (py_sorted descending_key (self_individuals q @ completed))"
      and ne: "self_individuals q' \<noteq> []" and f: "f = hd (self_individuals q')"
      by blast
    have all: "\<forall>i \<in> set (self_individuals q @ completed). fitness i \<noteq> NaN"
      using ok get_complete_individuals_not_NaN [OF comp] by auto
    from hd_take_py_sorted_greatest [OF all ne [unfolded kept]]
    have great: "\<forall>i \<in> set (self_individuals q @ completed).
        np_less_equal (fitness i) (fitness f)"
      unfolding f kept by blast
    have "set (self_individuals q') \<subseteq> set (self_individuals q @ completed)"
      unfolding kept using set_take_subset set_py_sorted by metis
    then have "\<forall>i \<in> set (self_individuals q'). fitness i \<noteq> NaN"
      using all by blast
    with great ne f show ?thesis by auto
  qed
  from step [OF assms] have
    mem: "fittest \<in> set (self_individuals self')"
    and ge: "\<forall>i \<in> set (self_individuals self). np_less_equal (fitness i) (fitness fittest)"
    and ok': "\<forall>i \<in> set (self_individuals self'). fitness i \<noteq> NaN"
    by blast+
  have "\<forall>g2 fittest2 self2 g2'.
            run_single_iteration np self' g2 = Returns (fittest2, self2, g2') \<longrightarrow>
            np_less_equal (fitness fittest) (fitness fittest2)"
    using step [OF _ ok'] mem by blast
  with mem ge show ?thesis by blast
qed


section \<open>A generation on the sample population\<close>

lemma random_random_zero: "random_random (0 # g) = Some (0, g)"
  by (simp add: random_random_def)

lemma random_random_half: "random_random (half_word # g) = Some (1 / 2, g)"
  by (simp add: random_random_def half_word_def)

lemma mutation_loop_no_change:
  "\<forall>i \<in> set js. i < length c \<Longrightarrow>
   mutation_loop js c acc (replicate (length js) half_word @ g) = Returns (acc @ map ((!) c) js, g)"
proof (induction js arbitrary: acc)
  case Nil
  show ?case by simp
next
  case (Cons j js)
  then show ?case
    by (simp add: random_random_half MUTATION_CHANCE_def)
qed

lemma mutation_no_change:
  assumes "length c = CHROMOSOME_SIZE * GENE_SIZE"
  shows "mutation c (replicate 36 half_word @ g) = Returns (c, g)"
proof -
  have "mutation c (replicate 36 half_word @ g)
      = mutation_loop [0..<length c] c [] (replicate (length [0..<length c]) half_word @ g)"
    using assms by (simp add: mutation_def CHROMOSOME_SIZE_def GENE_SIZE_def)
  also have "\<dots> = Returns ([] @ map ((!) c) [0..<length c], g)"
    by (rule mutation_loop_no_change) simp
  also have "\<dots> = Returns (c, g)"
    by (simp add: map_nth)
  finally show ?thesis .
qed

lemma sample_complete_simps:
  "fitness (sample_complete c) = Fin 1" "mse (sample_complete c) = 1"
  "chromosome (sample_complete c) = c"
  by (simp_all add: sample_complete_def)

lemma descending_key_sample: "descending_key (sample_complete c) = Fin (- 1)"
  by (simp add: descending_key_def sample_complete_simps)

lemma py_sorted_sample:
  "py_sorted descending_key (map sample_complete cs) = map sample_complete cs"
  by (rule py_sorted_equal_keys [where k = "Fin (- 1)"]) (auto simp: descending_key_sample)

lemma select_sample_first:
  "select_random_individual [sample_complete c, sample_complete d] (Fin 2) (0 # g)
     = Returns (0, g)"
  by (simp add: select_random_individual_def random_random_zero select_index_def
      sample_complete_simps np_greater_Fin float64_half float64_2)

lemma select_sample_second:
  "select_random_individual [sample_complete c, sample_complete d] (Fin 2) (half_word # g)
     = Returns (1, g)"
  by (simp add: select_random_individual_def random_random_half select_index_def
      sample_complete_simps np_greater_Fin float64_half float64_2)

lemma children_loop_sample_step:
  assumes "length cs < CHILDREN" and "length d = CHROMOSOME_SIZE * GENE_SIZE"
  shows "children_loop [sample_complete c, sample_complete d]
           [sample_complete c, sample_complete d] (Fin 2) cs (child_words @ g)
       = children_loop [sample_complete c, sample_complete d]
           [sample_complete c, sample_complete d] (Fin 2) (cs @ [d]) g"
proof -
  have words: "child_words @ g = 0 # half_word # 0 # (replicate 36 half_word @ g)"
    by (simp add: child_words_def)
  have parents: "parent_chromosomes [sample_complete c, sample_complete d] 0 (Suc 0) = Inr (c, d)"
    by (simp add: parent_chromosomes_def sample_complete_simps)
  have cross: "crossover c d (0 # h) = Some (d, h)" for h
    by (simp add: crossover_Cons crossover_at_def)
  show ?thesis
    unfolding words
    by (subst children_loop.simps)
      (use assms in \<open>simp add: select_sample_first select_sample_second parents cross
          mutation_no_change\<close>)
qed

lemma children_loop_sample:
  assumes "length d = CHROMOSOME_SIZE * GENE_SIZE"
  shows "length cs + n = CHILDREN \<Longrightarrow>
         children_loop [sample_complete c, sample_complete d]
           [sample_complete c, sample_complete d] (Fin 2) cs
           (concat (replicate n child_words) @ g)
       = Returns (cs @ replicate n d, g)"
proof (induction n arbitrary: cs)
  case 0
  then show ?case by (subst children_loop.simps) simp
next
  case (Suc n)
  then have lt: "length cs < CHILDREN" and rest: "length (cs @ [d]) + n = CHILDREN"
    by simp_all
  have "children_loop [sample_complete c, sample_complete d]
           [sample_complete c, sample_complete d] (Fin 2) cs
           (child_words @ concat (replicate n child_words) @ g)
      = Returns ((cs @ [d]) @ replicate n d, g)"
    unfolding children_loop_sample_step [OF lt assms] by (rule Suc.IH [OF rest])
  then show ?case by (simp add: replicate_app_Cons_same)
qed

lemma sample_data_completes:
  assumes "self_x self = constant_array 20 10 1" and "self_y self = alternating_array 20 10"
    and "self_adjacency_matrix self = constant_array 10 10 1"
    and "\<forall>c \<in> set cs. CHROMOSOME_SIZE * GENE_SIZE \<le> length c"
  shows "get_complete_individuals sample_numpy self cs = Inr (map sample_complete cs)"
  unfolding get_complete_individuals_def assms(1-3)
proof (rule collect_all_Inr)
  fix c assume "c \<in> set cs"
  then have "CHROMOSOME_SIZE * GENE_SIZE \<le> length c" using assms(4) by simp
  from decode_powers_ok [OF this] obtain ps where ps: "decode_powers c = Inr ps" by blast
  show "(case get_complete_individual sample_numpy (constant_array 20 10 1)
              (alternating_array 20 10) (constant_array 10 10 1) c of
          Inl e \<Rightarrow> Inl e
        | Inr (completed, warnings) \<Rightarrow> Inr completed) = Inr (sample_complete c)"
    using sample_individual_alternating [OF ps]
    by (simp add: sample_complete_def ps)
qed

lemma sample_population_completes:
  assumes "\<forall>c \<in> set cs. CHROMOSOME_SIZE * GENE_SIZE \<le> length c"
  shows "get_complete_individuals sample_numpy sample_population cs
       = Inr (map sample_complete cs)"
  using assms by (intro sample_data_completes) (simp_all add: sample_population_def)

lemma sample_generation:
  "run_single_iteration sample_numpy sample_population (generation_words 1 @ g)
     = Returns (sample_complete (replicate 36 0), sample_population, g)"
proof -
  let ?c = "replicate 36 (0::int)" and ?d = "replicate 36 (1::int)"
  have inds: "self_individuals sample_population = map sample_complete [?c, ?d]"
    by (simp add: sample_population_def)
  have len: "length ?d = CHROMOSOME_SIZE * GENE_SIZE"
    by (simp add: CHROMOSOME_SIZE_def GENE_SIZE_def)
  have sorted1: "py_sorted descending_key (self_individuals sample_population)
      = [sample_complete ?c, sample_complete ?d]"
    unfolding inds py_sorted_sample by simp
  have tf: "py_sum (map fitness (self_individuals sample_population)) = Fin 2"
    by (simp add: inds sample_complete_simps py_sum_def float64_1 float64_2)
  have loop0: "children_loop [sample_complete ?c, sample_complete ?d]
      [sample_complete ?c, sample_complete ?d] (Fin 2) [] (generation_words 1 @ g)
      = Returns (replicate CHILDREN ?d, g)"
    using children_loop_sample [OF len, of "[]" CHILDREN ?c g]
    by (simp add: generation_words_def)
  have loop: "children_loop (self_individuals sample_population)
      (py_sorted descending_key (self_individuals sample_population))
      (py_sum (map fitness (self_individuals sample_population))) [] (generation_words 1 @ g)
      = Returns (replicate CHILDREN ?d, g)"
    unfolding sorted1 tf unfolding sample_population_def using loop0 by simp
  have comp: "get_complete_individuals sample_numpy sample_population (replicate CHILDREN ?d)
      = Inr (map sample_complete (replicate CHILDREN ?d))"
    by (rule sample_population_completes) (simp add: CHROMOSOME_SIZE_def GENE_SIZE_def)
  have sorted2: "py_sorted descending_key
        (self_individuals sample_population @ map sample_complete (replicate CHILDREN ?d))
      = map sample_complete ([?c, ?d] @ replicate CHILDREN ?d)"
    unfolding inds map_append [symmetric] py_sorted_sample ..
  have kept: "take (self_size sample_population)
        (map sample_complete ([?c, ?d] @ replicate CHILDREN ?d))
      = [sample_complete ?c, sample_complete ?d]"
    by (simp add: sample_population_def)
  have same: "sample_population\<lparr>self_individuals := [sample_complete ?c, sample_complete ?d]\<rparr>
      = sample_population"
    by (simp add: sample_population_def)
  show ?thesis
    unfolding run_single_iteration_def Let_def loop
    by (simp only: outcome.case prod.case comp sum.case sorted2 kept list.sel same if_False
        list.simps)
qed

lemma random_bits_replicate:
  "random_bits n (replicate n w @ g) = Some (replicate n (int (w mod 2)), g)"
  by (induction n) (simp_all add: random_randint_def)

lemma sample_initial_individuals:
  "get_initial_individuals 2 (replicate 36 0 @ replicate 36 1 @ g)
     = Some ([replicate 36 0, replicate 36 1], g)"
proof -
  have two: "get_initial_individuals 2 h
      = (case random_bits 36 h of
           None \<Rightarrow> None
         | Some (c, h') \<Rightarrow>
             (case random_bits 36 h' of
                None \<Rightarrow> None
              | Some (d, h'') \<Rightarrow> Some ([c, d], h'')))" for h
    by (simp add: numeral_2_eq_2 CHROMOSOME_SIZE_def GENE_SIZE_def split: option.splits)
  show ?thesis
    unfolding two
    using random_bits_replicate [of 36 0] random_bits_replicate [of 36 1]
    by simp
qed

lemma sample_population_init:
  "population_init sample_numpy 2 (constant_array 20 10 1) (alternating_array 20 10)
     (constant_array 10 10 1) (replicate 36 0 @ replicate 36 1 @ g)
     = Returns (sample_population, g)"
proof -
  let ?blank = "\<lparr>self_size = 2, self_x = constant_array 20 10 1,
      self_y = alternating_array 20 10, self_adjacency_matrix = constant_array 10 10 1,
      self_individuals = []\<rparr>"
  have "get_complete_individuals sample_numpy ?blank [replicate 36 0, replicate 36 1]
      = Inr (map sample_complete [replicate 36 0, replicate 36 1])"
    by (rule sample_data_completes) (simp_all add: CHROMOSOME_SIZE_def GENE_SIZE_def)
  then show ?thesis
    unfolding population_init_def sample_initial_individuals
    by (simp add: sample_population_def)
qed

theorem population_size_invariant_witness:
  "population_init sample_numpy 2 (constant_array 20 10 1) (alternating_array 20 10)
     (constant_array 10 10 1) (replicate 36 0 @ replicate 36 1 @ [])
     = Returns (sample_population, []) \<and>
   self_size sample_population = 2 \<and>
   length (self_individuals sample_population) = 2 \<and>
   run_single_iteration sample_numpy sample_population (generation_words 1 @ [])
     = Returns (sample_complete (replicate 36 0), sample_population, []) \<and>
   length (self_individuals sample_population) = self_size sample_population"
proof -
  note init = sample_population_init [of "[]"]
  note run = sample_generation [of "[]"]
  have inv: "length (self_individuals sample_population) = self_size sample_population"
    by (simp add: sample_population_def)
  from population_size_invariant [THEN conjunct1, THEN mp, OF init]
  have a: "self_size sample_population = 2" "length (self_individuals sample_population) = 2"
    by simp_all
  from population_size_invariant [THEN conjunct2, THEN mp, OF conjI [OF inv run]]
  have b: "length (self_individuals sample_population) = self_size sample_population"
    by simp
  from init run a b show ?thesis by blast
qed

theorem best_fitness_monotone_witness:
  "run_single_iteration sample_numpy sample_population (generation_words 1 @ [])
     = Returns (sample_complete (replicate 36 0), sample_population, []) \<and>
   sample_complete (replicate 36 0) \<in> set (self_individuals sample_population) \<and>
   np_less_equal (fitness (sample_complete (replicate 36 1)))
     (fitness (sample_complete (replicate 36 0))) \<and>
   np_less_equal (fitness (sample_complete (replicate 36 0)))
     (fitness (sample_complete (replicate 36 0)))"
proof -
  note run = sample_generation [of "[]"]
  have ok: "\<forall>i \<in> set (self_individuals sample_population). fitness i \<noteq> NaN"
    by (simp add: sample_population_def sample_complete_simps)
  note main = best_fitness_monotone [OF run ok]
  have mem: "sample_complete (replicate 36 1) \<in> set (self_individuals sample_population)"
    by (simp add: sample_population_def)
  from main have "sample_complete (replicate 36 0) \<in> set (self_individuals sample_population)"
    by blast
  moreover from main mem have "np_less_equal (fitness (sample_complete (replicate 36 1)))
     (fitness (sample_complete (replicate 36 0)))"
    by blast
  moreover from main run have "np_less_equal (fitness (sample_complete (replicate 36 0)))
     (fitness (sample_complete (replicate 36 0)))"
    by blast
  ultimately show ?thesis using run by blast
qed


section \<open>Which parents reach crossover\<close>

lemma random_random_five_eighths:
  "random_random (five_eighths_word # g) = Some (5 / 8, g)"
  by (simp add: random_random_def five_eighths_word_def)

lemma sorted_unsorted_individuals:
  "py_sorted descending_key unsorted_individuals =
     [sample_individual (replicate 36 1) (1 / 3),
      sample_individual (replicate 18 1 @ replicate 18 0) (1 / 2),
      sample_individual (replicate 36 0) 1]"
  by (simp add: py_sorted_def unsorted_individuals_def descending_key_def
      fitness_sample_individuals)

lemma total_unsorted_individuals:
  "py_sum (map fitness unsorted_individuals) = Fin 6"
  by (simp add: py_sum_def unsorted_individuals_def fitness_sample_individuals
      float64_1 float64_4 float64_6)

lemma select_unsorted_first:
  "select_random_individual (py_sorted descending_key unsorted_individuals)
     (py_sum (map fitness unsorted_individuals)) (0 # g) = Returns (0, g)"
  unfolding sorted_unsorted_individuals total_unsorted_individuals
  by (simp add: select_random_individual_def random_random_zero select_index_def
      fitness_sample_individuals np_greater_Fin float64_half float64_5 float64_five_sixths)

lemma select_unsorted_second:
  "select_random_individual (py_sorted descending_key unsorted_individuals)
     (py_sum (map fitness unsorted_individuals)) (five_eighths_word # g) = Returns (Suc 0, g)"
  unfolding sorted_unsorted_individuals total_unsorted_individuals
  by (simp add: select_random_individual_def random_random_five_eighths select_index_def
      fitness_sample_individuals np_greater_Fin float64_half float64_5 float64_five_sixths)

text \<open>
  C2, the code at a stored population that is not sorted. The two draws select sorted
  positions 0 and 1, the individuals of fitness 3 and 2. The loop reads the parents at
  those positions of the stored list, the individuals of fitness 1 and 3, so the child
  (crossover point 18, no mutation) is built from the all-zero and the all-one
  chromosome, not from the chromosomes of the selected pair.
\<close>

theorem parents_read_from_stored_order:
  "py_sorted descending_key unsorted_individuals ! 0 = sample_individual (replicate 36 1) (1 / 3) \<and>
   py_sorted descending_key unsorted_individuals ! 1
     = sample_individual (replicate 18 1 @ replicate 18 0) (1 / 2) \<and>
   select_random_individual (py_sorted descending_key unsorted_individuals)
     (py_sum (map fitness unsorted_individuals))
     ([0, five_eighths_word, 18] @ replicate 36 half_word)
     = Returns (0, [five_eighths_word, 18] @ replicate 36 half_word) \<and>
   select_random_individual (py_sorted descending_key unsorted_individuals)
     (py_sum (map fitness unsorted_individuals))
     ([five_eighths_word, 18] @ replicate 36 half_word)
     = Returns (1, [18] @ replicate 36 half_word) \<and>
   parent_chromosomes unsorted_individuals 0 1 = Inr (replicate 36 0, replicate 36 1) \<and>
   children_loop unsorted_individuals (py_sorted descending_key unsorted_individuals)
     (py_sum (map fitness unsorted_individuals)) (replicate 9 (replicate 36 0))
     ([0, five_eighths_word, 18] @ replicate 36 half_word)
     = Returns (replicate 9 (replicate 36 0) @ [replicate 18 0 @ replicate 18 1], []) \<and>
   crossover_at 18 (chromosome (py_sorted descending_key unsorted_individuals ! 0))
     (chromosome (py_sorted descending_key unsorted_individuals ! 1))
     = replicate 18 1 @ replicate 18 0"
proof -
  have parents: "parent_chromosomes unsorted_individuals 0 (Suc 0)
      = Inr (replicate 36 0, replicate 36 1)"
    by (simp add: parent_chromosomes_def unsorted_individuals_def sample_individual_def)
  have cross: "crossover (replicate 36 0) (replicate 36 1) (18 # h)
      = Some (replicate 18 0 @ replicate 18 1, h)" for h
    by (simp add: crossover_Cons crossover_at_def CHROMOSOME_SIZE_def GENE_SIZE_def)
  have mut: "mutation (replicate 18 0 @ replicate 18 1) (replicate 36 half_word @ [])
      = Returns (replicate 18 0 @ replicate 18 1, [])"
    by (rule mutation_no_change) (simp add: CHROMOSOME_SIZE_def GENE_SIZE_def)
  have full: "children_loop unsorted_individuals (py_sorted descending_key unsorted_individuals)
      (py_sum (map fitness unsorted_individuals)) cs h = Returns (cs, h)"
    if "length cs = 10" for cs h
    using that by (subst children_loop.simps) (simp add: CHILDREN_def)
  have loop: "children_loop unsorted_individuals
      (py_sorted descending_key unsorted_individuals)
      (py_sum (map fitness unsorted_individuals)) (replicate 9 (replicate 36 0))
      ([0, five_eighths_word, 18] @ replicate 36 half_word)
      = Returns (replicate 9 (replicate 36 0) @ [replicate 18 0 @ replicate 18 1], [])"
    by (subst children_loop.simps)
      (use mut in \<open>simp add: CHILDREN_def select_unsorted_first select_unsorted_second
          parents cross full\<close>)
  have sel: "crossover_at 18 (chromosome (py_sorted descending_key unsorted_individuals ! 0))
     (chromosome (py_sorted descending_key unsorted_individuals ! 1))
     = replicate 18 1 @ replicate 18 0"
    unfolding sorted_unsorted_individuals
    by (simp add: sample_individual_def crossover_at_def)
  show ?thesis
    using parents loop sel select_unsorted_first select_unsorted_second
    by (simp add: sorted_unsorted_individuals)
qed


section \<open>The chromosomes of a population\<close>

text \<open>
  There are \<open>2^(CHROMOSOME_SIZE * GENE_SIZE)\<close> chromosomes, so their evaluation on given
  data gives at most that many fitness values.
\<close>

lemma finite_bit_chromosomes: "finite bit_chromosomes"
  unfolding bit_chromosomes_def by (rule finite_lists_length_eq) simp

lemma card_bit_chromosomes: "card bit_chromosomes = 2 ^ (CHROMOSOME_SIZE * GENE_SIZE)"
  unfolding bit_chromosomes_def by (subst card_lists_length_eq) (simp_all add: numeral_2_eq_2)

lemma chromosome_fitnesses_finite:
  "finite (chromosome_fitnesses np x y a) \<and>
   card (chromosome_fitnesses np x y a) \<le> 2 ^ (CHROMOSOME_SIZE * GENE_SIZE)"
proof -
  let ?h = "\<lambda>c. case get_complete_individual np x y a c of
                  Inl e \<Rightarrow> NaN | Inr (ind, ws) \<Rightarrow> fitness ind"
  have sub: "chromosome_fitnesses np x y a \<subseteq> ?h ` bit_chromosomes"
  proof
    fix f assume "f \<in> chromosome_fitnesses np x y a"
    then obtain c ind ws where c: "c \<in> bit_chromosomes"
      and "get_complete_individual np x y a c = Inr (ind, ws)" "f = fitness ind"
      unfolding chromosome_fitnesses_def by blast
    then have "f = ?h c" by simp
    then show "f \<in> ?h ` bit_chromosomes" using c by (rule image_eqI)
  qed
  have fin: "finite (?h ` bit_chromosomes)"
    using finite_bit_chromosomes by (rule finite_imageI)
  have "card (chromosome_fitnesses np x y a) \<le> card (?h ` bit_chromosomes)"
    using sub fin by (rule card_mono [rotated])
  also have "\<dots> \<le> card bit_chromosomes"
    using finite_bit_chromosomes by (rule card_image_le)
  finally show ?thesis
    using sub fin by (auto simp: card_bit_chromosomes intro: finite_subset)
qed

text \<open>
  The constructor draws bits, crossover copies bits of the parents and mutation copies
  or flips them: every chromosome the program builds is a list of
  \<open>CHROMOSOME_SIZE * GENE_SIZE\<close> bits.
\<close>

lemma random_bits_bits:
  "random_bits n g = Some (bs, g') \<Longrightarrow> set bs \<subseteq> {0, 1}"
proof (induction n arbitrary: g bs)
  case 0
  then show ?case by simp
next
  case (Suc n)
  from Suc.prems obtain b g1 bs1 where b: "random_randint 0 1 g = Some (b, g1)"
    and rest: "random_bits n g1 = Some (bs1, g')" and bs: "bs = b # bs1"
    by (auto split: option.splits)
  have "b \<in> {0, 1}"
    using b by (auto simp: random_randint_def split: list.splits)
  with Suc.IH [OF rest] show ?case by (simp add: bs)
qed

lemma get_initial_individuals_bits:
  "get_initial_individuals n g = Some (cs, g') \<Longrightarrow> \<forall>c \<in> set cs. c \<in> bit_chromosomes"
proof (induction n arbitrary: g cs)
  case 0
  then show ?case by simp
next
  case (Suc n)
  from Suc.prems obtain c g1 cs1 where
    c: "random_bits (CHROMOSOME_SIZE * GENE_SIZE) g = Some (c, g1)"
    and rest: "get_initial_individuals n g1 = Some (cs1, g')" and cs: "cs = c # cs1"
    by (auto split: option.splits)
  have "c \<in> bit_chromosomes"
    using random_bits_bits [OF c] random_bits_length [OF c] by (simp add: bit_chromosomes_def)
  with Suc.IH [OF rest] show ?case by (simp add: cs)
qed

lemma crossover_bits:
  assumes "crossover c1 c2 g = Some (off, g')" and "c1 \<in> bit_chromosomes"
    and "c2 \<in> bit_chromosomes"
  shows "off \<in> bit_chromosomes"
proof -
  from assms(1) obtain p where off: "off = crossover_at p c1 c2"
    by (auto simp: crossover_def split: option.splits)
  have "set off \<subseteq> set c1 \<union> set c2"
    unfolding off crossover_at_def
    using set_take_subset [of p c1] set_drop_subset [of p c2] by auto
  moreover have "length off = length c1"
    unfolding off using assms(2,3) by (intro length_crossover_at) (simp add: bit_chromosomes_def)
  ultimately show ?thesis using assms(2,3) by (auto simp: bit_chromosomes_def)
qed

lemma mutation_loop_bits:
  assumes "mutation_loop js c acc g = Returns (m, g')" and "set c \<subseteq> {0, 1}"
    and "set acc \<subseteq> {0, 1}"
  shows "set m \<subseteq> {0, 1} \<and> length m = length acc + length js"
  using assms
proof (induction js arbitrary: acc g)
  case Nil
  then show ?case by simp
next
  case (Cons j js)
  from Cons.prems(1) obtain r g1 where r: "random_random g = Some (r, g1)"
    and j: "j < length c"
    and rec: "mutation_loop js c
        (acc @ [if r < MUTATION_CHANCE then (if c ! j \<noteq> 0 then 0 else 1) else c ! j]) g1
        = Returns (m, g')"
    by (auto split: option.splits if_splits)
  have "c ! j \<in> {0, 1}" using j Cons.prems(2) by (meson nth_mem subsetD)
  then have "set (acc @ [if r < MUTATION_CHANCE then (if c ! j \<noteq> 0 then 0 else 1) else c ! j])
      \<subseteq> {0, 1}"
    using Cons.prems(3) by auto
  from Cons.IH [OF rec Cons.prems(2) this] show ?case by simp
qed

lemma mutation_bits:
  assumes "mutation c g = Returns (m, g')" and "c \<in> bit_chromosomes"
  shows "m \<in> bit_chromosomes"
  using mutation_loop_bits [OF assms(1) [unfolded mutation_def], of ] assms(2)
  by (simp add: bit_chromosomes_def)

lemma parent_chromosomes_bits:
  assumes "parent_chromosomes stored i1 i2 = Inr (c1, c2)"
    and "\<forall>i \<in> set stored. chromosome i \<in> bit_chromosomes"
  shows "c1 \<in> bit_chromosomes \<and> c2 \<in> bit_chromosomes"
  using assms by (auto simp: parent_chromosomes_def split: if_splits)

lemma children_loop_bits:
  assumes "children_loop stored sorted_inds tf children g = Returns (children', g')"
    and "\<forall>c \<in> set children. c \<in> bit_chromosomes"
    and "\<forall>i \<in> set stored. chromosome i \<in> bit_chromosomes"
  shows "\<forall>c \<in> set children'. c \<in> bit_chromosomes"
  using assms
proof (induction stored sorted_inds tf children g rule: children_loop.induct)
  case (1 stored sorted_inds tf children g)
  show ?case
  proof (cases "CHILDREN \<le> length children")
    case True
    then show ?thesis
      using "1.prems" by (simp add: children_loop.simps [of stored sorted_inds tf children g])
  next
    case False
    from "1.prems"(1) False obtain i1 g1 i2 g2 where
      s1: "select_random_individual sorted_inds tf g = Returns (i1, g1)"
      and s2: "select_random_individual sorted_inds tf g1 = Returns (i2, g2)"
      by (subst (asm) children_loop.simps) (auto split: outcome.splits)
    show ?thesis
    proof (cases "i1 = i2")
      case True
      have "children_loop stored sorted_inds tf children g2 = Returns (children', g')"
        using "1.prems"(1) False s1 s2 True
        by (subst (asm) children_loop.simps) simp
      then show ?thesis
        using "1.IH"(2) [OF False s1 refl s2 refl _ _ "1.prems"(2,3)] True by simp
    next
      case neq: False
      from "1.prems"(1) False s1 s2 neq obtain c1 c2 off g3 m g4 where
        pc: "parent_chromosomes stored i1 i2 = Inr (c1, c2)"
        and cr: "crossover c1 c2 g2 = Some (off, g3)"
        and mu: "mutation off g3 = Returns (m, g4)"
        and rec: "children_loop stored sorted_inds tf (children @ [m]) g4
                    = Returns (children', g')"
        by (subst (asm) children_loop.simps)
          (auto split: outcome.splits sum.splits option.splits)
      have "c1 \<in> bit_chromosomes" "c2 \<in> bit_chromosomes"
        using parent_chromosomes_bits [OF pc "1.prems"(3)] by simp_all
      then have "off \<in> bit_chromosomes" using crossover_bits [OF cr] by simp
      then have "m \<in> bit_chromosomes" using mutation_bits [OF mu] by simp
      then have "\<forall>c \<in> set (children @ [m]). c \<in> bit_chromosomes"
        using "1.prems"(2) by simp
      from "1.IH"(1) [OF False s1 refl s2 refl neq pc refl cr refl mu refl rec this "1.prems"(3)]
      show ?thesis .
    qed
  qed
qed

text \<open>
  Hence the constructor returns an evaluated population, and a generation that returns
  from an evaluated population stores an evaluated population on the same data, which
  holds the individual it returns.
\<close>

lemma get_complete_individuals_evaluated:
  assumes "get_complete_individuals np self cs = Inr inds"
    and "\<forall>c \<in> set cs. c \<in> bit_chromosomes" and "i \<in> set inds"
  shows "chromosome i \<in> bit_chromosomes \<and>
         (\<exists>ws. get_complete_individual np (self_x self) (self_y self)
                 (self_adjacency_matrix self) (chromosome i) = Inr (i, ws))"
proof -
  from collect_Inr_set [OF assms(1) [unfolded get_complete_individuals_def] assms(3)]
  obtain c where c: "c \<in> set cs"
    and "(case get_complete_individual np (self_x self) (self_y self)
                          (self_adjacency_matrix self) c of
                    Inl e \<Rightarrow> Inl e
                  | Inr (completed, warnings) \<Rightarrow> Inr completed) = Inr i"
    by blast
  then obtain ws where ws: "get_complete_individual np (self_x self) (self_y self)
      (self_adjacency_matrix self) c = Inr (i, ws)"
    by (auto split: sum.splits)
  then have "chromosome i = c" by (rule get_complete_individual_chromosome)
  with c ws assms(2) show ?thesis by auto
qed

lemma population_init_evaluated:
  assumes "population_init np n x y a g = Returns (self, g')"
  shows "evaluated np self \<and> self_x self = x \<and> self_y self = y \<and>
         self_adjacency_matrix self = a"
proof -
  let ?blank = "\<lparr>self_size = n, self_x = x, self_y = y, self_adjacency_matrix = a,
              self_individuals = []\<rparr>"
  from population_init_Returns [OF assms] obtain cs where
    cs: "get_initial_individuals n g = Some (cs, g')"
    and comp: "get_complete_individuals np ?blank cs = Inr (self_individuals self)"
    and data: "self_x self = x" "self_y self = y" "self_adjacency_matrix self = a"
    by blast
  have "evaluated np self"
    unfolding evaluated_def
    using get_complete_individuals_evaluated [OF comp get_initial_individuals_bits [OF cs]]
    by (simp add: data)
  with data show ?thesis by simp
qed

lemma run_single_iteration_evaluated:
  assumes "run_single_iteration np self g = Returns (fittest, self', g')"
    and "evaluated np self"
  shows "evaluated np self' \<and> fittest \<in> set (self_individuals self') \<and>
         self_x self' = self_x self \<and> self_y self' = self_y self \<and>
         self_adjacency_matrix self' = self_adjacency_matrix self"
proof -
  from run_single_iteration_Returns [OF assms(1)] obtain children completed where
    loop: "children_loop (self_individuals self)
             (py_sorted descending_key (self_individuals self))
             (py_sum (map fitness (self_individuals self))) [] g = Returns (children, g')"
    and comp: "get_complete_individuals np self children = Inr completed"
    and kept: "self_individuals self'
             = take (self_size self)
                 (py_sorted descending_key (self_individuals self @ completed))"
    and ne: "self_individuals self' \<noteq> []"
    and fit: "fittest = hd (self_individuals self')"
    and upd: "self' = self\<lparr>self_individuals := self_individuals self'\<rparr>"
    by blast
  have data: "self_x self' = self_x self" "self_y self' = self_y self"
    "self_adjacency_matrix self' = self_adjacency_matrix self"
    by (subst upd, simp)+
  have stored: "\<forall>i \<in> set (self_individuals self). chromosome i \<in> bit_chromosomes"
    using assms(2) by (simp add: evaluated_def)
  have bits: "\<forall>c \<in> set children. c \<in> bit_chromosomes"
    using children_loop_bits [OF loop _ stored] by simp
  have "set (self_individuals self') \<subseteq> set (self_individuals self) \<union> set completed"
    unfolding kept
    using set_take_subset [of "self_size self"
        "py_sorted descending_key (self_individuals self @ completed)"]
    by (simp add: set_py_sorted)
  then have "evaluated np self'"
    unfolding evaluated_def data
    using assms(2) get_complete_individuals_evaluated [OF comp bits]
    by (auto simp: evaluated_def)
  moreover have "fittest \<in> set (self_individuals self')"
    using ne fit by simp
  ultimately show ?thesis using data by simp
qed

lemma evaluated_fitness:
  assumes "evaluated np self" and "i \<in> set (self_individuals self)"
  shows "fitness i \<in> chromosome_fitnesses np (self_x self) (self_y self)
           (self_adjacency_matrix self)"
  using assms unfolding evaluated_def chromosome_fitnesses_def by blast


section \<open>The driver loop\<close>

lemma improvement_shrinks:
  assumes "finite F" and "ft \<in> F" and "np_greater ft b"
  shows "card {f \<in> F. np_greater f ft} < card {f \<in> F. np_greater f b}"
proof (rule psubset_card_mono)
  show "finite {f \<in> F. np_greater f b}" using assms(1) by simp
  have "{f \<in> F. np_greater f ft} \<subseteq> {f \<in> F. np_greater f b}"
    using assms(3) np_less_trans by (auto simp: np_greater_def)
  moreover have "ft \<in> {f \<in> F. np_greater f b}" using assms(2,3) by simp
  moreover have "ft \<notin> {f \<in> F. np_greater f ft}"
    by (simp add: np_greater_def np_less_irrefl)
  ultimately show "{f \<in> F. np_greater f ft} \<subset> {f \<in> F. np_greater f b}" by blast
qed

lemma run_loop_exit:
  "\<not> counter v - best_index v < TERMINATION_CONDITION \<Longrightarrow>
   run_loop step s v = Some (Returns (s, v))"
  by (subst run_loop.simps) simp

lemma run_loop_step:
  assumes "counter v - best_index v < TERMINATION_CONDITION"
    and "step s = Returns (fittest, s')" and "record_generation fittest v = Inr v'"
  shows "run_loop step s v = run_loop step s' v'"
  by (subst run_loop.simps) (simp add: assms)

lemma run_loop_terminates_aux:
  assumes fin: "finite F"
    and step: "\<And>m s. I (Suc m) s \<Longrightarrow>
      \<exists>fittest s'. step s = Returns (fittest, s') \<and> I m s' \<and> 0 < mse fittest \<and>
        fitness fittest \<in> F"
  shows "card {f \<in> F. np_greater f (best_fitness v)} = n \<Longrightarrow>
         TERMINATION_CONDITION - (counter v - best_index v) = k \<Longrightarrow>
         best_index v \<le> counter v \<Longrightarrow>
         counter v - best_index v \<le> TERMINATION_CONDITION \<Longrightarrow>
         I m s \<Longrightarrow>
         best_index v + TERMINATION_CONDITION * (n + 1) \<le> counter v + m \<Longrightarrow>
         length (errors v) = counter v \<Longrightarrow>
         \<exists>s' v'. run_loop step s v = Some (Returns (s', v')) \<and>
           counter v' - best_index v' = TERMINATION_CONDITION \<and>
           counter v' \<le> best_index v + TERMINATION_CONDITION * (n + 1) \<and>
           length (errors v') = counter v'"
proof (induction n arbitrary: v k m s rule: less_induct)
  case (less n)
  note outer = less.IH
  from less.prems show ?case
  proof (induction k arbitrary: v m s)
    case 0
    then have "\<not> counter v - best_index v < TERMINATION_CONDITION" by simp
    then have "run_loop step s v = Some (Returns (s, v))" by (rule run_loop_exit)
    moreover have "counter v - best_index v = TERMINATION_CONDITION" using 0 by simp
    moreover have "counter v \<le> best_index v + TERMINATION_CONDITION * (n + 1)"
      using 0 by simp
    ultimately show ?case using 0 by blast
  next
    case (Suc k)
    let ?T = TERMINATION_CONDITION
    have d: "counter v - best_index v < ?T" using Suc.prems(2) by simp
    have dist: "?T * (n + 1) = ?T * n + ?T" by simp
    have "0 < m" using Suc.prems(3,6) d unfolding dist by linarith
    then obtain m' where m: "m = Suc m'" by (cases m) simp_all
    from step [OF Suc.prems(5) [unfolded m]] obtain fittest s' where
      st: "step s = Returns (fittest, s')" and inv: "I m' s'"
      and pos: "0 < mse fittest" and inF: "fitness fittest \<in> F"
      by blast
    show ?case
    proof (cases "np_greater (fitness fittest) (best_fitness v)")
      case True
      let ?v' = "v\<lparr>counter := counter v + 1, fittest_individual := Some fittest,
          errors := errors v @ [log 10 (mse fittest)],
          best_fitness := fitness fittest, best_index := counter v + 1\<rparr>"
      have rec: "record_generation fittest v = Inr ?v'"
        using pos True by (simp add: record_generation_def Let_def)
      have eq: "run_loop step s v = run_loop step s' ?v'"
        using d st rec by (rule run_loop_step)
      define n' where "n' = card {f \<in> F. np_greater f (best_fitness ?v')}"
      have "n' < n"
        using improvement_shrinks [OF fin inF True] Suc.prems(1) by (simp add: n'_def)
      then have le: "?T * (n' + 1) \<le> ?T * n" by (intro mult_le_mono2) simp
      have bound: "best_index ?v' + ?T * (n' + 1) \<le> counter ?v' + m'"
        using Suc.prems(3,6) d le unfolding dist m by simp
      from outer [OF \<open>n' < n\<close> n'_def [symmetric] refl _ _ inv bound]
      obtain sf vf where fin_run: "run_loop step s' ?v' = Some (Returns (sf, vf))"
        and ex: "counter vf - best_index vf = ?T"
        and cb: "counter vf \<le> best_index ?v' + ?T * (n' + 1)"
        and el: "length (errors vf) = counter vf"
        using Suc.prems(7) by auto
      have "counter vf \<le> best_index v + ?T * (n + 1)"
        using cb le d Suc.prems(3) unfolding dist by simp
      with fin_run ex el show ?thesis unfolding eq by blast
    next
      case False
      let ?v' = "v\<lparr>counter := counter v + 1, fittest_individual := Some fittest,
          errors := errors v @ [log 10 (mse fittest)]\<rparr>"
      have rec: "record_generation fittest v = Inr ?v'"
        using pos False by (simp add: record_generation_def Let_def)
      have eq: "run_loop step s v = run_loop step s' ?v'"
        using d st rec by (rule run_loop_step)
      have "\<exists>sf vf. run_loop step s' ?v' = Some (Returns (sf, vf)) \<and>
           counter vf - best_index vf = ?T \<and>
           counter vf \<le> best_index ?v' + ?T * (n + 1) \<and>
           length (errors vf) = counter vf"
      proof (rule Suc.IH [OF _ _ _ _ inv])
        show "card {f \<in> F. np_greater f (best_fitness ?v')} = n"
          using Suc.prems(1) by simp
        show "?T - (counter ?v' - best_index ?v') = k"
          using Suc.prems(2,3) by simp
        show "best_index ?v' \<le> counter ?v'" using Suc.prems(3) by simp
        show "counter ?v' - best_index ?v' \<le> ?T" using d Suc.prems(3) by simp
        show "best_index ?v' + ?T * (n + 1) \<le> counter ?v' + m'"
          using Suc.prems(6) unfolding m by simp
        show "length (errors ?v') = counter ?v'" using Suc.prems(7) by simp
      qed
      then show ?thesis unfolding eq by simp
    qed
  qed
qed

text \<open>
  C4, as the code has it. Let the constructor return a population, and suppose every
  generation step the loop makes returns, with a fittest individual of positive error:
  \<open>J m\<close> holds of a state from which \<open>m\<close> further steps are known to return so. The
  constructor's population is evaluated, a generation that returns keeps it so, and the
  fitness of the individual it returns lies in the finite set of the fitness values of
  the \<open>2^(CHROMOSOME_SIZE * GENE_SIZE)\<close> chromosomes, so the best fitness can improve at
  most that many times. The loop exits; it exits in the state in which the
  number of generations since the last strict improvement of the best fitness equals
  \<open>TERMINATION_CONDITION\<close>; it has run at most \<open>TERMINATION_CONDITION\<close> times the number
  of fitness values plus one generations, and logged one error per generation. For the
  population size \<open>POPULATION\<close> this is the result of \<open>run\<close>.
\<close>

theorem run_loop_terminates:
  assumes "population_init np n x y a g = Returns s0"
    and "J (TERMINATION_CONDITION * (2 ^ (CHROMOSOME_SIZE * GENE_SIZE) + 1)) s0"
    and "\<forall>m s. J (Suc m) s \<longrightarrow>
           (\<exists>fittest s'. generation_step np s = Returns (fittest, s') \<and> J m s' \<and>
              0 < mse fittest)"
  shows "finite (chromosome_fitnesses np x y a) \<and>
         card (chromosome_fitnesses np x y a) \<le> 2 ^ (CHROMOSOME_SIZE * GENE_SIZE) \<and>
         evaluated np (fst s0) \<and> self_x (fst s0) = x \<and> self_y (fst s0) = y \<and>
         self_adjacency_matrix (fst s0) = a \<and>
         (\<forall>self h fittest self' h'.
            evaluated np self \<and> run_single_iteration np self h = Returns (fittest, self', h') \<longrightarrow>
            evaluated np self' \<and> self_x self' = self_x self \<and> self_y self' = self_y self \<and>
            self_adjacency_matrix self' = self_adjacency_matrix self \<and>
            fitness fittest
              \<in> chromosome_fitnesses np (self_x self) (self_y self) (self_adjacency_matrix self)) \<and>
         (\<exists>s v. run_loop (generation_step np) s0 initial_run_state = Some (Returns (s, v)) \<and>
            (n = POPULATION \<longrightarrow> run np x y a g = Some (Returns (s, v))) \<and>
            counter v - best_index v = TERMINATION_CONDITION \<and>
            counter v \<le> TERMINATION_CONDITION * (card (chromosome_fitnesses np x y a) + 1) \<and>
            length (errors v) = counter v)"
proof -
  let ?T = TERMINATION_CONDITION
  let ?F = "chromosome_fitnesses np x y a"
  let ?M = "?T * (2 ^ (CHROMOSOME_SIZE * GENE_SIZE) + 1)"
  have fin: "finite ?F" and card: "card ?F \<le> 2 ^ (CHROMOSOME_SIZE * GENE_SIZE)"
    using chromosome_fitnesses_finite by blast+
  define I where "I m s \<longleftrightarrow> J m s \<and> evaluated np (fst s) \<and> self_x (fst s) = x \<and>
      self_y (fst s) = y \<and> self_adjacency_matrix (fst s) = a" for m s
  obtain self0 g0 where s0: "s0 = (self0, g0)" by (cases s0)
  have start: "evaluated np (fst s0) \<and> self_x (fst s0) = x \<and> self_y (fst s0) = y \<and>
      self_adjacency_matrix (fst s0) = a"
    using population_init_evaluated [OF assms(1) [unfolded s0]] by (simp add: s0)
  have init: "I ?M s0"
    using start assms(2) by (simp add: I_def)
  have preserved: "\<forall>self h fittest self' h'.
      evaluated np self \<and> run_single_iteration np self h = Returns (fittest, self', h') \<longrightarrow>
      evaluated np self' \<and> self_x self' = self_x self \<and> self_y self' = self_y self \<and>
      self_adjacency_matrix self' = self_adjacency_matrix self \<and>
      fitness fittest
        \<in> chromosome_fitnesses np (self_x self) (self_y self) (self_adjacency_matrix self)"
  proof (intro allI impI, elim conjE)
    fix self h fittest self' h'
    assume ev: "evaluated np self"
      and run: "run_single_iteration np self h = Returns (fittest, self', h')"
    from run_single_iteration_evaluated [OF run ev]
    have ev': "evaluated np self'" and mem: "fittest \<in> set (self_individuals self')"
      and data: "self_x self' = self_x self" "self_y self' = self_y self"
        "self_adjacency_matrix self' = self_adjacency_matrix self"
      by simp_all
    from evaluated_fitness [OF ev' mem] ev' data
    show "evaluated np self' \<and> self_x self' = self_x self \<and> self_y self' = self_y self \<and>
      self_adjacency_matrix self' = self_adjacency_matrix self \<and>
      fitness fittest
        \<in> chromosome_fitnesses np (self_x self) (self_y self) (self_adjacency_matrix self)"
      by simp
  qed
  have step: "\<exists>fittest s'. generation_step np s = Returns (fittest, s') \<and> I m s' \<and>
      0 < mse fittest \<and> fitness fittest \<in> ?F" if "I (Suc m) s" for m s
  proof -
    from that have J: "J (Suc m) s" and ev: "evaluated np (fst s)"
      and data: "self_x (fst s) = x" "self_y (fst s) = y" "self_adjacency_matrix (fst s) = a"
      by (simp_all add: I_def)
    from assms(3) J obtain fittest s' where
      st: "generation_step np s = Returns (fittest, s')" and J': "J m s'"
      and pos: "0 < mse fittest"
      by blast
    obtain self' g' where s': "s' = (self', g')" by (cases s')
    have "run_single_iteration np (fst s) (snd s) = Returns (fittest, self', g')"
      using st by (simp add: generation_step_def s')
    from run_single_iteration_evaluated [OF this ev]
    have ev': "evaluated np self'" and mem: "fittest \<in> set (self_individuals self')"
      and data': "self_x self' = x" "self_y self' = y" "self_adjacency_matrix self' = a"
      by (simp_all add: data)
    have "fitness fittest \<in> ?F"
      using evaluated_fitness [OF ev' mem] by (simp add: data')
    moreover have "I m s'" using J' ev' data' by (simp add: I_def s')
    ultimately show ?thesis using st pos by blast
  qed
  define k where "k = card {f \<in> ?F. np_greater f (best_fitness initial_run_state)}"
  have "k \<le> card ?F"
    unfolding k_def using fin by (intro card_mono) auto
  then have le: "?T * (k + 1) \<le> ?T * (card ?F + 1)"
    by (intro mult_le_mono2) simp
  have "card ?F + 1 \<le> 2 ^ (CHROMOSOME_SIZE * GENE_SIZE) + 1" using card by simp
  then have le': "?T * (card ?F + 1) \<le> ?M"
    by (rule mult_le_mono2)
  have "\<exists>s v. run_loop (generation_step np) s0 initial_run_state = Some (Returns (s, v)) \<and>
           counter v - best_index v = ?T \<and>
           counter v \<le> best_index initial_run_state + ?T * (k + 1) \<and>
           length (errors v) = counter v"
  proof (rule run_loop_terminates_aux [where F = ?F and I = I and step = "generation_step np"
        and v = initial_run_state and n = k and m = ?M and s = s0
        and k = "?T - (counter initial_run_state - best_index initial_run_state)"])
    show "finite ?F" by (rule fin)
    show "\<exists>fittest s'. generation_step np s = Returns (fittest, s') \<and> I m s' \<and>
        0 < mse fittest \<and> fitness fittest \<in> ?F" if "I (Suc m) s" for m s
      using step [OF that] .
    show "card {f \<in> ?F. np_greater f (best_fitness initial_run_state)} = k"
      by (simp add: k_def)
    show "?T - (counter initial_run_state - best_index initial_run_state)
        = ?T - (counter initial_run_state - best_index initial_run_state)"
      by (rule refl)
    show "I ?M s0" by (rule init)
    show "best_index initial_run_state \<le> counter initial_run_state"
      by (simp add: initial_run_state_def)
    show "counter initial_run_state - best_index initial_run_state \<le> ?T"
      by (simp add: initial_run_state_def)
    have "?T * (k + 1) \<le> ?M" using le le' by (rule le_trans)
    then show "best_index initial_run_state + ?T * (k + 1) \<le> counter initial_run_state + ?M"
      unfolding initial_run_state_def by simp
    show "length (errors initial_run_state) = counter initial_run_state"
      by (simp add: initial_run_state_def)
  qed
  then obtain s v where loop: "run_loop (generation_step np) s0 initial_run_state
      = Some (Returns (s, v))"
    and exit: "counter v - best_index v = ?T" and "counter v \<le> ?T * (k + 1)"
    and logged: "length (errors v) = counter v"
    by (auto simp: initial_run_state_def)
  then have bound: "counter v \<le> ?T * (card ?F + 1)" using le by (meson le_trans)
  have "n = POPULATION \<longrightarrow> run np x y a g = Some (Returns (s, v))"
    using assms(1) loop by (auto simp: run_def)
  with loop exit bound logged have result: "\<exists>s v.
      run_loop (generation_step np) s0 initial_run_state = Some (Returns (s, v)) \<and>
      (n = POPULATION \<longrightarrow> run np x y a g = Some (Returns (s, v))) \<and>
      counter v - best_index v = ?T \<and> counter v \<le> ?T * (card ?F + 1) \<and>
      length (errors v) = counter v"
    by blast
  from start have s1: "evaluated np (fst s0)" and s2: "self_x (fst s0) = x"
    and s3: "self_y (fst s0) = y" and s4: "self_adjacency_matrix (fst s0) = a"
    by blast+
  show ?thesis
    by (intro conjI fin card s1 s2 s3 s4 preserved result)
qed

lemma generation_words_Suc:
  "generation_words (Suc m) = generation_words 1 @ generation_words m"
  by (simp add: generation_words_def replicate_add)

lemma sample_generation_step:
  "generation_step sample_numpy (sample_population, generation_words (Suc m))
     = Returns (sample_complete (replicate 36 0), sample_population, generation_words m)"
  unfolding generation_step_def generation_words_Suc
  using sample_generation [of "generation_words m"] by simp

theorem run_loop_terminates_witness:
  "population_init sample_numpy 2 (constant_array 20 10 1) (alternating_array 20 10)
     (constant_array 10 10 1)
     (replicate 36 0 @ replicate 36 1 @
      generation_words (TERMINATION_CONDITION * (2 ^ (CHROMOSOME_SIZE * GENE_SIZE) + 1)))
     = Returns (sample_population,
         generation_words (TERMINATION_CONDITION * (2 ^ (CHROMOSOME_SIZE * GENE_SIZE) + 1))) \<and>
   (\<exists>s v. run_loop (generation_step sample_numpy)
            (sample_population,
             generation_words (TERMINATION_CONDITION * (2 ^ (CHROMOSOME_SIZE * GENE_SIZE) + 1)))
            initial_run_state = Some (Returns (s, v)) \<and>
          counter v - best_index v = TERMINATION_CONDITION \<and>
          counter v \<le> TERMINATION_CONDITION *
            (card (chromosome_fitnesses sample_numpy (constant_array 20 10 1)
                     (alternating_array 20 10) (constant_array 10 10 1)) + 1) \<and>
          length (errors v) = counter v)"
proof -
  let ?M = "TERMINATION_CONDITION * (2 ^ (CHROMOSOME_SIZE * GENE_SIZE) + 1)"
  have init: "population_init sample_numpy 2 (constant_array 20 10 1) (alternating_array 20 10)
     (constant_array 10 10 1) (replicate 36 0 @ replicate 36 1 @ generation_words ?M)
     = Returns (sample_population, generation_words ?M)"
    by (rule sample_population_init)
  have steps: "\<forall>m s. s = (sample_population, generation_words (Suc m)) \<longrightarrow>
      (\<exists>fittest s'. generation_step sample_numpy s = Returns (fittest, s') \<and>
         s' = (sample_population, generation_words m) \<and> 0 < mse fittest)"
    by (auto simp: sample_generation_step sample_complete_simps)
  from run_loop_terminates [where J = "\<lambda>m s. s = (sample_population, generation_words m)",
      OF init refl steps]
  obtain s v where "run_loop (generation_step sample_numpy)
      (sample_population, generation_words ?M) initial_run_state = Some (Returns (s, v))"
    "counter v - best_index v = TERMINATION_CONDITION"
    "counter v \<le> TERMINATION_CONDITION *
       (card (chromosome_fitnesses sample_numpy (constant_array 20 10 1)
                (alternating_array 20 10) (constant_array 10 10 1)) + 1)"
    "length (errors v) = counter v"
    by blast
  with init show ?thesis by blast
qed

section \<open>A run that never leaves its first generation\<close>

lemma select_scan_all_inf:
  "\<forall>i \<in> set rest. fitness i = PInf \<Longrightarrow>
   select_scan r PInf rest sel PInf = sel + length rest"
  by (induction rest arbitrary: sel) (simp_all add: np_greater_def)

lemma select_all_inf:
  assumes "inds \<noteq> []" and "\<forall>i \<in> set inds. fitness i = PInf"
  shows "select_random_individual inds PInf (w # g) = Returns (length inds - 1, g)"
proof -
  from assms obtain i rest where inds: "inds = i # rest" "fitness i = PInf"
    "\<forall>j \<in> set rest. fitness j = PInf"
    by (cases inds) auto
  show ?thesis
    by (simp add: select_random_individual_def random_random_def select_index_def inds
        select_scan_all_inf)
qed

lemma select_starved: "select_random_individual inds tf [] = Starved"
  by (simp add: select_random_individual_def random_random_def)

lemma py_sum_all_inf:
  assumes "vs \<noteq> []" and "\<forall>v \<in> set vs. v = PInf"
  shows "py_sum vs = PInf"
proof -
  have "foldl np_add PInf ws = PInf" if "\<forall>v \<in> set ws. v = PInf" for ws
    using that by (induction ws) simp_all
  then show ?thesis
    using assms by (cases vs) (simp_all add: py_sum_def)
qed

text \<open>
  When every fitness is infinite the cumulative fraction is \<open>inf / inf\<close>, a NaN that no
  draw is below: both selections return the last index, the two parents are never
  distinct, and the loop consumes draws without ever producing a child.
\<close>

lemma children_loop_starves:
  assumes "sorted_inds \<noteq> []" and "\<forall>i \<in> set sorted_inds. fitness i = PInf"
    and "length cs < CHILDREN"
  shows "children_loop stored sorted_inds PInf cs g = Starved \<and>
         children_loop stored sorted_inds PInf cs (w # g) = Starved"
proof (induction g arbitrary: w)
  case Nil
  have "children_loop stored sorted_inds PInf cs [] = Starved"
    using assms(3) by (subst children_loop.simps) (simp add: select_starved)
  moreover have "children_loop stored sorted_inds PInf cs [w] = Starved"
    using assms(3)
    by (subst children_loop.simps) (simp add: select_all_inf [OF assms(1,2)] select_starved)
  ultimately show ?case by simp
next
  case (Cons v g)
  have "children_loop stored sorted_inds PInf cs (w # v # g)
      = children_loop stored sorted_inds PInf cs g"
    using assms(3)
    by (subst children_loop.simps) (simp add: select_all_inf [OF assms(1,2)])
  then show ?case using Cons.IH by simp
qed

lemma run_single_iteration_starves:
  assumes "self_individuals self \<noteq> []" and "\<forall>i \<in> set (self_individuals self). fitness i = PInf"
  shows "run_single_iteration np self g = Starved"
proof -
  have tf: "py_sum (map fitness (self_individuals self)) = PInf"
    using assms by (intro py_sum_all_inf) auto
  have ne: "py_sorted descending_key (self_individuals self) \<noteq> []"
    using assms(1) length_py_sorted [of descending_key "self_individuals self"]
    by (metis length_0_conv)
  have inf: "\<forall>i \<in> set (py_sorted descending_key (self_individuals self)). fitness i = PInf"
    using assms(2) by (simp add: set_py_sorted)
  have "length ([] :: int list list) < CHILDREN" by (simp add: CHILDREN_def)
  from children_loop_starves [OF ne inf this, THEN conjunct1]
  show ?thesis
    unfolding run_single_iteration_def Let_def tf by simp
qed

lemma zero_target_completes:
  assumes "\<forall>c \<in> set cs. CHROMOSOME_SIZE * GENE_SIZE \<le> length c"
    and "self_x self = constant_array 20 10 1" and "self_y self = constant_array 20 10 0"
    and "self_adjacency_matrix self = constant_array 10 10 1"
  shows "\<exists>inds. get_complete_individuals sample_numpy self cs = Inr inds \<and>
           length inds = length cs \<and> (\<forall>i \<in> set inds. fitness i = PInf)"
proof -
  let ?f = "\<lambda>c. \<lparr>chromosome = c, powers = (case decode_powers c of Inl e \<Rightarrow> [] | Inr ps \<Rightarrow> ps),
      coefficients = [0, 0, 0], mse = 0, fitness = PInf\<rparr>"
  have "get_complete_individuals sample_numpy self cs = Inr (map ?f cs)"
    unfolding get_complete_individuals_def assms(2-4)
  proof (rule collect_all_Inr)
    fix c assume "c \<in> set cs"
    then have "CHROMOSOME_SIZE * GENE_SIZE \<le> length c" using assms(1) by simp
    from decode_powers_ok [OF this] obtain ps where ps: "decode_powers c = Inr ps" by blast
    show "(case get_complete_individual sample_numpy (constant_array 20 10 1)
              (constant_array 20 10 0) (constant_array 10 10 1) c of
          Inl e \<Rightarrow> Inl e
        | Inr (completed, warnings) \<Rightarrow> Inr completed) = Inr (?f c)"
      using sample_individual_zero_target [OF ps] by (simp add: ps)
  qed
  then show ?thesis by auto
qed

text \<open>
  C4 as stated fails on a zero derivative matrix: every fit is exact, every fitness is infinite,
  and whatever the generator produces the first generation never returns; the run is
  still reading draws at the end of every finite prefix of the generator's output.
\<close>

theorem run_zero_target_never_returns:
  "\<forall>g. run sample_numpy (constant_array 20 10 1) (constant_array 20 10 0)
         (constant_array 10 10 1) g = Some Starved"
proof
  fix g
  let ?x = "constant_array 20 10 1" and ?y = "constant_array 20 10 0"
    and ?a = "constant_array 10 10 1"
  let ?blank = "\<lparr>self_size = POPULATION, self_x = ?x, self_y = ?y,
      self_adjacency_matrix = ?a, self_individuals = []\<rparr>"
  show "run sample_numpy ?x ?y ?a g = Some Starved"
  proof (cases "get_initial_individuals POPULATION g")
    case None
    then show ?thesis by (simp add: run_def population_init_def)
  next
    case (Some r)
    obtain cs g' where r: "r = (cs, g')" by (cases r)
    have lens: "\<forall>c \<in> set cs. CHROMOSOME_SIZE * GENE_SIZE \<le> length c"
      using get_initial_individuals_chromosome_length [OF Some [unfolded r]] by simp
    from zero_target_completes [OF lens, of ?blank] obtain inds where
      comp: "get_complete_individuals sample_numpy ?blank cs = Inr inds"
      and len: "length inds = length cs" and inf: "\<forall>i \<in> set inds. fitness i = PInf"
      by auto
    have "length cs = POPULATION"
      using get_initial_individuals_length [OF Some [unfolded r]] .
    then have ne: "inds \<noteq> []" using len by (auto simp: POPULATION_def)
    let ?pop = "?blank\<lparr>self_individuals := inds\<rparr>"
    have init: "population_init sample_numpy POPULATION ?x ?y ?a g = Returns (?pop, g')"
      by (simp add: population_init_def Some r comp)
    have "run_single_iteration sample_numpy ?pop g' = Starved"
      by (rule run_single_iteration_starves) (use ne inf in simp_all)
    then have "generation_step sample_numpy (?pop, g') = Starved"
      by (simp add: generation_step_def)
    then have "run_loop (generation_step sample_numpy) (?pop, g') initial_run_state
        = Some Starved"
      by (subst run_loop.simps)
        (simp add: initial_run_state_def TERMINATION_CONDITION_def)
    then show ?thesis by (simp add: run_def init)
  qed
qed


end
